theory Spec2Isabelle
  imports Main "HOL-Library.Word"
begin

unbundle bit_operations_syntax

section \<open>Bytes, 32-bit words and the byte order of the host\<close>

text \<open>
  The program works on \<^verbatim>\<open>uint8_t\<close> and \<^verbatim>\<open>char\<close> buffers and reinterprets them as
  arrays of \<^verbatim>\<open>uint32_t\<close>. A buffer is a list of bytes; a word is read from and written to
  four consecutive bytes in the byte order of the host, which is a parameter of the model
  (the Zynq target is little-endian).
\<close>

type_synonym byte = "8 word"
type_synonym uint32 = "32 word"

datatype endian = LittleEndian | BigEndian

text \<open>
  \<^verbatim>\<open>bswap32\<close> comes from the system header \<^verbatim>\<open>sys/endian.h\<close>, which is not part of the
  repository. It is written here in the header's generic form, by shifts and masks; that it
  puts the four bytes of a word in reverse order is proved below (\<open>store32_bswap32\<close>).
\<close>

definition bswap32 :: "uint32 \<Rightarrow> uint32" where
  "bswap32 x =
     drop_bit 24 x OR (drop_bit 8 x AND 0xff00) OR (push_bit 8 x AND 0xff0000) OR push_bit 24 x"

fun le32 :: "byte list \<Rightarrow> uint32" where
  "le32 [b0, b1, b2, b3] =
     ucast b0 OR push_bit 8 (ucast b1) OR push_bit 16 (ucast b2) OR push_bit 24 (ucast b3)"
| "le32 _ = 0"

definition le32_bytes :: "uint32 \<Rightarrow> byte list" where
  "le32_bytes w = [ucast w, ucast (drop_bit 8 w), ucast (drop_bit 16 w), ucast (drop_bit 24 w)]"

text \<open>Reading \<^verbatim>\<open>*(uint32_t *)p\<close> from the four bytes at \<^verbatim>\<open>p\<close>, and writing it back.\<close>

definition load32 :: "endian \<Rightarrow> byte list \<Rightarrow> uint32" where
  "load32 e bs = (case e of LittleEndian \<Rightarrow> le32 bs | BigEndian \<Rightarrow> le32 (rev bs))"

definition store32 :: "endian \<Rightarrow> uint32 \<Rightarrow> byte list" where
  "store32 e w = (case e of LittleEndian \<Rightarrow> le32_bytes w | BigEndian \<Rightarrow> rev (le32_bytes w))"

text \<open>
  Writing the bytes \<open>bs\<close> into a buffer at offset \<open>off\<close> (\<^verbatim>\<open>memmove\<close>, \<^verbatim>\<open>read\<close> into
  \<^verbatim>\<open>buf + off\<close>, a word store): the bytes before and after keep their old contents.
\<close>

definition buf_store :: "byte list \<Rightarrow> nat \<Rightarrow> byte list \<Rightarrow> byte list" where
  "buf_store buf off bs = take off buf @ bs @ drop (off + length bs) buf"

section \<open>The header analyzer\<close>

definition buswords_noswap :: "uint32 list" where
  "buswords_noswap = [0x000000bb, 0x11220044]"

definition buswords_swap :: "uint32 list" where
  "buswords_swap = [0xbb000000, 0x44002211]"

text \<open>\<^verbatim>\<open>sizeof\<close> of an array of \<^verbatim>\<open>uint32_t\<close>, and the bytes the array occupies in memory.\<close>

definition sizeof_words :: "uint32 list \<Rightarrow> nat" where
  "sizeof_words ws = 4 * length ws"

definition words_mem :: "endian \<Rightarrow> uint32 list \<Rightarrow> byte list" where
  "words_mem e ws = concat (map (store32 e) ws)"

definition MAXHDR :: nat where
  "MAXHDR = 256"

text \<open>
  The scan loop of \<^verbatim>\<open>analyze_xilinx_header\<close>, started at index \<open>i\<close> with \<open>dummies\<close>
  padding bytes counted; it returns the values of \<^verbatim>\<open>i\<close> and \<^verbatim>\<open>dummies\<close> when the loop
  is left, by \<^verbatim>\<open>break\<close> or by its bound.
\<close>

function scan_dummies :: "byte list \<Rightarrow> nat \<Rightarrow> nat \<Rightarrow> nat \<times> nat" where
  "scan_dummies hdr i dummies =
     (if i < MAXHDR - sizeof_words buswords_swap then
        (if hdr ! i = 0xff then scan_dummies hdr (i + 1) (dummies + 1)
         else if dummies \<ge> 32 then (i, dummies)
         else scan_dummies hdr (i + 1) 0)
      else (i, dummies))"
  by pat_completeness auto
termination
  by (relation "measure (\<lambda>(hdr, i, dummies). MAXHDR - sizeof_words buswords_swap - i)") auto

text \<open>\<^verbatim>\<open>memcmp(&buf[off], mem, n) == 0\<close>.\<close>

definition memcmp_eq :: "byte list \<Rightarrow> nat \<Rightarrow> byte list \<Rightarrow> nat \<Rightarrow> bool" where
  "memcmp_eq buf off mem n \<longleftrightarrow> take n (drop off buf) = take n mem"

text \<open>
  The result is the pair of the returned \<^verbatim>\<open>int\<close> (\<open>-1\<close> when the header cannot be
  parsed) and the flag stored through \<^verbatim>\<open>do_swap\<close>.
\<close>

definition analyze_xilinx_header :: "endian \<Rightarrow> byte list \<Rightarrow> int \<times> bool" where
  "analyze_xilinx_header e hdr =
     (case scan_dummies hdr 0 0 of (i, dummies) \<Rightarrow>
        if dummies < 32 then (- 1, False)
        else if memcmp_eq hdr i (words_mem e buswords_noswap) (sizeof_words buswords_noswap)
        then (int i - 32, False)
        else if memcmp_eq hdr i (words_mem e buswords_swap) (sizeof_words buswords_swap)
        then (int i - 32, True)
        else (- 1, False))"

section \<open>The byte-order swap of a buffer\<close>

text \<open>
  \<^verbatim>\<open>for (i = 0; i * sizeof(uint32_t) < n; i++)\<close> swaps word \<open>i\<close> of the buffer in place.
  The loop runs while \<open>4 * i < n\<close>, so it also swaps the word that holds byte \<open>n - 1\<close>
  when \<open>n\<close> is not a multiple of four. The count \<open>n\<close> is an \<^verbatim>\<open>int\<close> in the source
  and positive at both calls (at most 256 for the header, at most \<open>64 * 1024\<close> in the
  copy loop), so it is a natural number here and the comparison in \<^verbatim>\<open>size_t\<close> is the
  comparison of natural numbers. Every word the loop touches at those calls lies inside the
  buffer; the lemmas on the loop carry that as a hypothesis on the length of the buffer.
\<close>

function xbit2bin_bswap_loop :: "endian \<Rightarrow> byte list \<Rightarrow> nat \<Rightarrow> nat \<Rightarrow> byte list" where
  "xbit2bin_bswap_loop e datbuf n i =
     (if i * 4 < n then
        xbit2bin_bswap_loop e
          (buf_store datbuf (i * 4) (store32 e (bswap32 (load32 e (take 4 (drop (i * 4) datbuf))))))
          n (i + 1)
      else datbuf)"
  by pat_completeness auto
termination
  by (relation "measure (\<lambda>(e, datbuf, n, i). n - i * 4)") auto

definition xbit2bin_bswap :: "endian \<Rightarrow> byte list \<Rightarrow> nat \<Rightarrow> byte list" where
  "xbit2bin_bswap e datbuf n = xbit2bin_bswap_loop e datbuf n 0"

section \<open>The input and output streams\<close>

text \<open>
  The input descriptor holds the bytes not yet read, in the pieces in which the system
  will deliver them, and ends either at end of file or in a read error. \<^verbatim>\<open>read\<close> returns
  bytes of the first piece only, at most as many as are asked for; what is left of the
  piece stays for the next read, and a piece with no bytes in it is passed over. A regular
  file is one piece, so each read returns the count asked for while that many bytes remain;
  on a pipe, a FIFO or a device a read may return fewer. After the last piece \<^verbatim>\<open>read\<close>
  returns \<open>0\<close> or \<open>-1\<close>.
  The output descriptor holds the bytes written and the room left on the device;
  \<^verbatim>\<open>write\<close> accepts bytes while there is room and returns the number it accepted.
\<close>

datatype ending = Eof | IOError

record instream =
  pending :: "byte list list"
  ending :: ending

record outstream =
  written :: "byte list"
  room :: nat

text \<open>All the bytes of the input that have not been read.\<close>

definition content :: "instream \<Rightarrow> byte list" where
  "content fin = concat (pending fin)"

definition sys_read :: "instream \<Rightarrow> nat \<Rightarrow> int \<times> byte list \<times> instream" where
  "sys_read fin cnt =
     (case dropWhile (\<lambda>c. c = []) (pending fin) of
        [] \<Rightarrow> (if ending fin = IOError then (- 1, [], fin) else (0, [], fin))
      | c # cs \<Rightarrow>
          (int (length (take cnt c)), take cnt c, fin\<lparr>pending := drop cnt c # cs\<rparr>))"

definition sys_write :: "outstream \<Rightarrow> byte list \<Rightarrow> int \<times> outstream" where
  "sys_write fout bs =
     (let k = min (length bs) (room fout)
      in (int k, fout\<lparr>written := written fout @ take k bs, room := room fout - k\<rparr>))"

section \<open>The transcoder\<close>

definition DATBUF_SIZE :: nat where
  "DATBUF_SIZE = 64 * 1024"

text \<open>
  The first part of \<^verbatim>\<open>xbit2bin\<close>, up to the point where the header is written: it reads
  and analyzes the header, strips it, reads on to a multiple of four bytes and swaps.
  \<open>None\<close> is \<^verbatim>\<open>return (-1)\<close>; otherwise the result holds \<^verbatim>\<open>do_swap\<close>, the buffer
  \<^verbatim>\<open>hdr\<close>, the count \<^verbatim>\<open>n\<close> and the input descriptor. The array \<^verbatim>\<open>hdr\<close> is not
  initialised in the source; the first read fills all of it or the function returns.
\<close>

definition xbit2bin_header ::
    "endian \<Rightarrow> instream \<Rightarrow> (bool \<times> byte list \<times> nat \<times> instream) option" where
  "xbit2bin_header e fin =
     (case sys_read fin MAXHDR of (r, hdr, fin1) \<Rightarrow>
        if r \<noteq> int MAXHDR then None
        else case analyze_xilinx_header e hdr of (strip, do_swap) \<Rightarrow>
          if strip < 0 then None
          else
            let n = MAXHDR - nat strip;
                hdr1 = (if strip > 0 then buf_store hdr 0 (take n (drop (nat strip) hdr)) else hdr)
            in if n AND 3 \<noteq> 0 then
                 (case sys_read fin1 (4 - (n AND 3)) of (r2, extra, fin2) \<Rightarrow>
                    if r2 \<noteq> int (4 - (n AND 3)) then None
                    else
                      let hdr2 = buf_store hdr1 n extra;
                          n2 = n + (4 - (n AND 3))
                      in Some (do_swap, if do_swap then xbit2bin_bswap e hdr2 n2 else hdr2, n2, fin2))
               else Some (do_swap, if do_swap then xbit2bin_bswap e hdr1 n else hdr1, n, fin1))"

text \<open>
  The copy loop of \<^verbatim>\<open>xbit2bin\<close>. The buffer \<^verbatim>\<open>datbuf\<close> keeps its contents from one
  iteration to the next; \<^verbatim>\<open>read\<close> overwrites only the bytes it returns.
\<close>

function xbit2bin_copy ::
    "endian \<Rightarrow> bool \<Rightarrow> instream \<Rightarrow> outstream \<Rightarrow> byte list \<Rightarrow> int \<times> outstream" where
  "xbit2bin_copy e do_swap fin fout datbuf =
     (case sys_read fin DATBUF_SIZE of (n, bs, fin1) \<Rightarrow>
        if n = 0 then (0, fout)
        else if n < 0 then (- 1, fout)
        else
          let datbuf1 = buf_store datbuf 0 bs;
              datbuf2 = (if do_swap then xbit2bin_bswap e datbuf1 (nat n) else datbuf1)
          in (case sys_write fout (take (nat n) datbuf2) of (w, fout1) \<Rightarrow>
                if w \<noteq> n then (- 1, fout1)
                else xbit2bin_copy e do_swap fin1 fout1 datbuf2))"
  by pat_completeness auto
termination
proof (relation "measure (\<lambda>(e, do_swap, fin, fout, datbuf). length (content fin))")
  have pieces: "concat (dropWhile (\<lambda>c. c = []) xs) = concat xs" for xs :: "byte list list"
    by (induction xs) simp_all
  fix e :: endian and do_swap :: bool and fin fin1 :: instream and fout fout1 :: outstream
    and datbuf datbuf2 bs :: "byte list" and n :: int and y :: "byte list \<times> instream"
  assume "(n, y) = sys_read fin DATBUF_SIZE" and "(bs, fin1) = y"
    and "n \<noteq> 0" and "\<not> n < 0"
  then have rd: "sys_read fin DATBUF_SIZE = (n, bs, fin1)" and pos: "0 < n"
    by (simp_all add: prod_eq_iff)
  have "length (content fin1) < length (content fin)"
  proof (cases "dropWhile (\<lambda>c. c = []) (pending fin)")
    case Nil
    with rd pos show ?thesis
      by (simp add: sys_read_def split: if_splits)
  next
    case (Cons c cs)
    with rd pos have "content fin1 = drop DATBUF_SIZE c @ concat cs" and "c \<noteq> []"
      by (auto simp: sys_read_def content_def)
    moreover from Cons pieces [of "pending fin"] have "content fin = c @ concat cs"
      by (simp add: content_def)
    ultimately show ?thesis
      by (simp add: DATBUF_SIZE_def)
  qed
  then show "((e, do_swap, fin1, fout1, datbuf2), (e, do_swap, fin, fout, datbuf))
      \<in> measure (\<lambda>(e, do_swap, fin, fout, datbuf). length (content fin))"
    by simp
qed simp

text \<open>
  \<^verbatim>\<open>xbit2bin\<close>: the return value and the output descriptor when it returns. The initial
  contents of \<^verbatim>\<open>datbuf\<close>, an uninitialised array of \<open>DATBUF_SIZE\<close> bytes, are a parameter.
\<close>

definition xbit2bin :: "endian \<Rightarrow> instream \<Rightarrow> outstream \<Rightarrow> byte list \<Rightarrow> int \<times> outstream" where
  "xbit2bin e fin fout datbuf =
     (case xbit2bin_header e fin of
        None \<Rightarrow> (- 1, fout)
      | Some (do_swap, hdr, n, fin1) \<Rightarrow>
          (case sys_write fout (take n hdr) of (w, fout1) \<Rightarrow>
             if w \<noteq> int n then (- 1, fout1)
             else xbit2bin_copy e do_swap fin1 fout1 datbuf))"

section \<open>Reads that return the count asked for\<close>

text \<open>
  \<^verbatim>\<open>xbit2bin\<close> does not repeat a read that returns fewer bytes than it asked for. The
  two reads before the copy loop, of the 256 header bytes and of \<open>k\<close> bytes more, return
  in full exactly when \<open>header_reads\<close> gives the descriptor they leave behind.
\<close>

definition header_reads :: "instream \<Rightarrow> nat \<Rightarrow> instream option" where
  "header_reads fin k =
     (case sys_read fin MAXHDR of (r, hdr, fin1) \<Rightarrow>
        if r \<noteq> int MAXHDR then None
        else if k = 0 then Some fin1
        else (case sys_read fin1 k of (r2, bs, fin2) \<Rightarrow>
                if r2 \<noteq> int k then None else Some fin2))"

text \<open>
  Every read of the copy loop returns a multiple of four bytes, but for the read that
  takes the last bytes of the input. So it is on a regular file, where every read but the
  last returns \<open>DATBUF_SIZE\<close> bytes.
\<close>

function word_reads :: "instream \<Rightarrow> bool" where
  "word_reads fin =
     (case sys_read fin DATBUF_SIZE of (n, bs, fin1) \<Rightarrow>
        if n \<le> 0 then True
        else if content fin1 = [] then True
        else if 4 dvd length bs then word_reads fin1
        else False)"
  by pat_completeness auto
termination
proof (relation "measure (\<lambda>fin. length (content fin))")
  have pieces: "concat (dropWhile (\<lambda>c. c = []) xs) = concat xs" for xs :: "byte list list"
    by (induction xs) simp_all
  fix fin fin1 :: instream and bs :: "byte list" and n :: int
    and y :: "byte list \<times> instream"
  assume "(n, y) = sys_read fin DATBUF_SIZE" and "(bs, fin1) = y" and "\<not> n \<le> 0"
  then have rd: "sys_read fin DATBUF_SIZE = (n, bs, fin1)" and pos: "0 < n"
    by (simp_all add: prod_eq_iff)
  have "length (content fin1) < length (content fin)"
  proof (cases "dropWhile (\<lambda>c. c = []) (pending fin)")
    case Nil
    with rd pos show ?thesis
      by (simp add: sys_read_def split: if_splits)
  next
    case (Cons c cs)
    with rd pos have "content fin1 = drop DATBUF_SIZE c @ concat cs" and "c \<noteq> []"
      by (auto simp: sys_read_def content_def)
    moreover from Cons pieces [of "pending fin"] have "content fin = c @ concat cs"
      by (simp add: content_def)
    ultimately show ?thesis
      by (simp add: DATBUF_SIZE_def)
  qed
  then show "(fin1, fin) \<in> measure (\<lambda>fin. length (content fin))"
    by simp
qed simp

section \<open>Notions of the specification\<close>

text \<open>
  The byte sequence with the four bytes of every complete 32-bit word reversed; one to
  three bytes after the last complete word stay as they are.
\<close>

fun rev_words :: "byte list \<Rightarrow> byte list" where
  "rev_words (a # b # c # d # xs) = d # c # b # a # rev_words xs"
| "rev_words xs = xs"

text \<open>
  The number of consecutive padding bytes \<open>0xff\<close> that end just before index \<open>i\<close>,
  and whether a byte sequence holds 32 consecutive padding bytes somewhere.
\<close>

definition dummies_before :: "byte list \<Rightarrow> nat \<Rightarrow> nat" where
  "dummies_before hdr i = length (takeWhile (\<lambda>b. b = 0xff) (rev (take i hdr)))"

definition has_dummy_run :: "byte list \<Rightarrow> bool" where
  "has_dummy_run xs \<longleftrightarrow> (\<exists>j \<in> {..length xs}. 32 \<le> dummies_before xs j)"

text \<open>The two bus-width markers, as the bytes they occupy in memory.\<close>

definition is_marker :: "endian \<Rightarrow> byte list \<Rightarrow> bool" where
  "is_marker e m \<longleftrightarrow> m = words_mem e buswords_noswap \<or> m = words_mem e buswords_swap"

section \<open>The byte-order swap reverses the bytes of each word\<close>

declare xbit2bin_bswap_loop.simps [simp del]
declare scan_dummies.simps [simp del]
declare xbit2bin_copy.simps [simp del]
declare word_reads.simps [simp del]

lemma mask_ff00: "(0xff00 :: uint32) = push_bit 8 (mask 8)"
  by (simp add: mask_eq_exp_minus_1)

lemma mask_ff0000: "(0xff0000 :: uint32) = push_bit 16 (mask 8)"
  by (simp add: mask_eq_exp_minus_1)

lemma le32_bswap32: "le32_bytes (bswap32 (le32 [a, b, c, d])) = [d, c, b, a]"
  unfolding le32_bytes_def bswap32_def le32.simps mask_ff00 mask_ff0000
  apply (simp only: list.inject simp_thms)
  apply (intro conjI bit_word_eqI)
     apply (auto simp add: bit_simps dest: bit_imp_le_length)
  done

lemma store32_bswap32: "store32 e (bswap32 (load32 e [a, b, c, d])) = [d, c, b, a]"
  by (cases e) (simp_all add: store32_def load32_def le32_bswap32 del: le32.simps)

lemma length_rev_words [simp]: "length (rev_words xs) = length xs"
  by (induction xs rule: rev_words.induct) simp_all

lemma rev_words_twice [simp]: "rev_words (rev_words xs) = xs"
  by (induction xs rule: rev_words.induct) simp_all

lemma four_bytes:
  assumes "length ws = Suc k * 4"
  obtains a b c d ws' where "ws = a # b # c # d # ws'" and "length ws' = k * 4"
proof -
  from assms have "length ws = Suc (Suc (Suc (Suc (k * 4))))"
    by simp
  then have "\<exists>a b c d ws'. ws = a # b # c # d # ws' \<and> length ws' = k * 4"
    by (auto simp: length_Suc_conv)
  with that show thesis by blast
qed

lemma rev_words_append_words:
  "length xs = k * 4 \<Longrightarrow> rev_words (xs @ ys) = rev_words xs @ rev_words ys"
proof (induction k arbitrary: xs)
  case 0
  then show ?case by simp
next
  case (Suc k)
  from Suc.prems obtain a b c d xs' where "xs = a # b # c # d # xs'" and "length xs' = k * 4"
    by (rule four_bytes)
  with Suc.IH [of xs'] show ?case by simp
qed

lemma rev_words_append:
  "4 dvd length xs \<Longrightarrow> rev_words (xs @ ys) = rev_words xs @ rev_words ys"
  by (metis dvd_div_mult_self rev_words_append_words)

lemma bswap_loop_words:
  "length pre = i * 4 \<Longrightarrow> length ws = k * 4 \<Longrightarrow> (i + k) * 4 = 4 * ((n + 3) div 4)
   \<Longrightarrow> xbit2bin_bswap_loop e (pre @ ws @ post) n i = pre @ rev_words ws @ post"
proof (induction k arbitrary: pre ws i)
  case 0
  from 0(3) have "\<not> i * 4 < n" by simp
  with 0(2) show ?case by (simp add: xbit2bin_bswap_loop.simps)
next
  case (Suc k)
  from Suc.prems(2) obtain a b c d ws' where ws: "ws = a # b # c # d # ws'" and len: "length ws' = k * 4"
    by (rule four_bytes)
  from Suc.prems(3) have lt: "i * 4 < n" by simp
  have st: "buf_store (pre @ ws @ post) (i * 4)
              (store32 e (bswap32 (load32 e (take 4 (drop (i * 4) (pre @ ws @ post))))))
            = (pre @ [d, c, b, a]) @ ws' @ post"
    using Suc.prems(1) by (simp add: ws buf_store_def store32_bswap32 del: le32.simps)
  have l1: "length (pre @ [d, c, b, a]) = (i + 1) * 4"
    using Suc.prems(1) by simp
  have l3: "(i + 1 + k) * 4 = 4 * ((n + 3) div 4)"
    using Suc.prems(3) by simp
  have "xbit2bin_bswap_loop e (pre @ ws @ post) n i
        = xbit2bin_bswap_loop e (buf_store (pre @ ws @ post) (i * 4)
              (store32 e (bswap32 (load32 e (take 4 (drop (i * 4) (pre @ ws @ post))))))) n (i + 1)"
    by (subst xbit2bin_bswap_loop.simps) (simp only: lt if_True)
  also have "\<dots> = xbit2bin_bswap_loop e ((pre @ [d, c, b, a]) @ ws' @ post) n (i + 1)"
    by (simp only: st)
  also have "\<dots> = (pre @ [d, c, b, a]) @ rev_words ws' @ post"
    by (rule Suc.IH [OF l1 len l3])
  finally show ?case
    by (simp add: ws)
qed

lemma xbit2bin_bswap_eq:
  assumes "4 * ((n + 3) div 4) \<le> length buf"
  shows "xbit2bin_bswap e buf n
         = rev_words (take (4 * ((n + 3) div 4)) buf) @ drop (4 * ((n + 3) div 4)) buf"
proof -
  let ?m = "4 * ((n + 3) div 4)"
  have "xbit2bin_bswap_loop e ([] @ take ?m buf @ drop ?m buf) n 0
        = [] @ rev_words (take ?m buf) @ drop ?m buf"
    using assms by (intro bswap_loop_words [where k = "(n + 3) div 4"]) simp_all
  then show ?thesis by (simp add: xbit2bin_bswap_def)
qed

lemma xbit2bin_bswap_aligned:
  "4 dvd n \<Longrightarrow> n \<le> length buf \<Longrightarrow> xbit2bin_bswap e buf n = rev_words (take n buf) @ drop n buf"
proof -
  assume "4 dvd n" and le: "n \<le> length buf"
  then have "4 * ((n + 3) div 4) = n" by presburger
  with le xbit2bin_bswap_eq [of n buf e] show ?thesis by simp
qed

section \<open>Where the scan stops\<close>

lemma scan_bound: "MAXHDR - sizeof_words buswords_swap = 248"
  by (simp add: MAXHDR_def sizeof_words_def buswords_swap_def)

lemma scan_dummies_unfold:
  "scan_dummies hdr i d =
     (if i < 248 then
        (if hdr ! i = 0xff then scan_dummies hdr (Suc i) (Suc d)
         else if 32 \<le> d then (i, d)
         else scan_dummies hdr (Suc i) 0)
      else (i, d))"
  by (subst scan_dummies.simps) (simp add: scan_bound)

lemma dummies_before_0 [simp]: "dummies_before hdr 0 = 0"
  by (simp add: dummies_before_def)

lemma dummies_before_Suc:
  "i < length hdr \<Longrightarrow>
   dummies_before hdr (Suc i) = (if hdr ! i = 0xff then Suc (dummies_before hdr i) else 0)"
  by (simp add: dummies_before_def take_Suc_conv_app_nth)

lemma dummies_before_le: "dummies_before hdr i \<le> i"
proof -
  have "dummies_before hdr i \<le> length (rev (take i hdr))"
    unfolding dummies_before_def by (rule length_takeWhile_le)
  then show ?thesis by simp
qed

lemma dummies_before_nth:
  assumes "t < dummies_before hdr i" and "i \<le> length hdr"
  shows "hdr ! (i - Suc t) = 0xff"
proof -
  let ?ys = "rev (take i hdr)"
  from assms(1) have t: "t < length (takeWhile (\<lambda>b. b = 0xff) ?ys)"
    by (simp add: dummies_before_def)
  then have "takeWhile (\<lambda>b. b = 0xff) ?ys ! t \<in> set (takeWhile (\<lambda>b. b = 0xff) ?ys)"
    by (rule nth_mem)
  then have "takeWhile (\<lambda>b. b = 0xff) ?ys ! t = 0xff"
    by (rule set_takeWhileD [THEN conjunct2])
  with t have "?ys ! t = 0xff"
    by (simp add: takeWhile_nth)
  moreover from assms dummies_before_le [of hdr i] have "t < i" by simp
  ultimately show ?thesis
    using assms(2) by (simp add: rev_nth)
qed

lemma dummies_before_take:
  "j \<le> length pre \<Longrightarrow> dummies_before (pre @ ys) j = dummies_before pre j"
  by (simp add: dummies_before_def)

lemma dummies_before_run:
  "k \<le> dummies_before (pre @ replicate k 0xff @ ys) (length pre + k)"
proof -
  have "takeWhile (\<lambda>b. b = 0xff) (replicate k (0xff::byte) @ rev pre)
        = replicate k 0xff @ takeWhile (\<lambda>b. b = 0xff) (rev pre)"
    by (rule takeWhile_append2) simp
  then show ?thesis
    by (simp add: dummies_before_def)
qed

lemma scan_dummies_to:
  "p - i = n \<Longrightarrow> i \<le> p \<Longrightarrow> p \<le> 248 \<Longrightarrow> p \<le> length hdr \<Longrightarrow>
   (\<forall>j. i \<le> j \<and> j < p \<longrightarrow> hdr ! j = 0xff \<or> dummies_before hdr j < 32) \<Longrightarrow>
   scan_dummies hdr i (dummies_before hdr i) = scan_dummies hdr p (dummies_before hdr p)"
proof (induction n arbitrary: i)
  case 0
  then show ?case by simp
next
  case (Suc n)
  then have lt: "i < p" and i248: "i < 248" and il: "i < length hdr"
    by simp_all
  have rest: "scan_dummies hdr (Suc i) (dummies_before hdr (Suc i))
              = scan_dummies hdr p (dummies_before hdr p)"
    using Suc.prems by (intro Suc.IH) simp_all
  from Suc.prems(5) lt have here: "hdr ! i = 0xff \<or> dummies_before hdr i < 32"
    by simp
  show ?case
  proof (cases "hdr ! i = 0xff")
    case True
    with i248 il rest show ?thesis
      by (subst scan_dummies_unfold) (simp add: dummies_before_Suc)
  next
    case False
    with here have "\<not> 32 \<le> dummies_before hdr i" by simp
    with False i248 il rest show ?thesis
      by (subst scan_dummies_unfold) (simp add: dummies_before_Suc)
  qed
qed

text \<open>Where the scan stops: the loop's invariant, carried to its exit.\<close>

lemma scan_dummies_exit:
  "scan_dummies hdr i (dummies_before hdr i) = (i', d') \<Longrightarrow> i \<le> 248 \<Longrightarrow> 248 \<le> length hdr \<Longrightarrow>
   i \<le> i' \<and> i' \<le> 248 \<and> d' = dummies_before hdr i'"
proof (induction "248 - i" arbitrary: i)
  case 0
  then show ?case by (subst (asm) scan_dummies_unfold) simp
next
  case (Suc n)
  then have i248: "i < 248" and il: "i < length hdr" by simp_all
  have IH: "scan_dummies hdr (Suc i) (dummies_before hdr (Suc i)) = (i', d')
            \<Longrightarrow> Suc i \<le> i' \<and> i' \<le> 248 \<and> d' = dummies_before hdr i'"
    using Suc.prems Suc.hyps(2) i248 by (intro Suc.hyps(1)) simp_all
  show ?case
  proof (cases "hdr ! i = 0xff")
    case True
    with Suc.prems(1) i248 il have "scan_dummies hdr (Suc i) (dummies_before hdr (Suc i)) = (i', d')"
      by (subst (asm) scan_dummies_unfold) (simp add: dummies_before_Suc)
    with IH show ?thesis by simp
  next
    case False
    show ?thesis
    proof (cases "32 \<le> dummies_before hdr i")
      case True
      with False Suc.prems(1) i248 show ?thesis
        by (subst (asm) scan_dummies_unfold) auto
    next
      case nostop: False
      with False Suc.prems(1) i248 il have "scan_dummies hdr (Suc i) (dummies_before hdr (Suc i)) = (i', d')"
        by (subst (asm) scan_dummies_unfold) (simp add: dummies_before_Suc)
      with IH show ?thesis by simp
    qed
  qed
qed

lemma words_mem_noswap:
  "words_mem e buswords_noswap
   = (case e of LittleEndian \<Rightarrow> [0xbb, 0, 0, 0, 0x44, 0, 0x22, 0x11]
      | BigEndian \<Rightarrow> [0, 0, 0, 0xbb, 0x11, 0x22, 0, 0x44])"
  by (cases e) (simp_all add: words_mem_def buswords_noswap_def store32_def le32_bytes_def)

lemma words_mem_swap:
  "words_mem e buswords_swap
   = (case e of LittleEndian \<Rightarrow> [0, 0, 0, 0xbb, 0x11, 0x22, 0, 0x44]
      | BigEndian \<Rightarrow> [0xbb, 0, 0, 0, 0x44, 0, 0x22, 0x11])"
  by (cases e) (simp_all add: words_mem_def buswords_swap_def store32_def le32_bytes_def)

lemma marker_facts:
  assumes "is_marker e m"
  shows "length m = 8" and "m ! 0 \<noteq> 0xff"
  using assms by (cases e; auto simp: is_marker_def words_mem_noswap words_mem_swap)+

lemma markers_differ: "words_mem e buswords_swap \<noteq> words_mem e buswords_noswap"
  by (cases e) (simp_all add: words_mem_noswap words_mem_swap)

lemma sizeof_buswords [simp]:
  "sizeof_words buswords_noswap = 8" "sizeof_words buswords_swap = 8"
  by (simp_all add: sizeof_words_def buswords_noswap_def buswords_swap_def)

lemma length_words_mem [simp]:
  "length (words_mem e buswords_noswap) = 8" "length (words_mem e buswords_swap) = 8"
  by (cases e; simp add: words_mem_noswap words_mem_swap)+

lemma analyze_run:
  assumes len: "length hdr = MAXHDR"
    and hdr: "hdr = pre @ replicate k 0xff @ m @ post"
    and k: "32 \<le> k"
    and pre: "\<not> has_dummy_run pre"
    and m: "is_marker e m"
  shows "analyze_xilinx_header e hdr = (int (length pre + k) - 32, m = words_mem e buswords_swap)"
proof -
  let ?p = "length pre + k"
  from len hdr marker_facts(1) [OF m] have p248: "?p \<le> 248" and pl: "?p \<le> length hdr"
    by (simp_all add: MAXHDR_def)
  have nostop: "\<forall>j. 0 \<le> j \<and> j < ?p \<longrightarrow> hdr ! j = 0xff \<or> dummies_before hdr j < 32"
  proof (intro allI impI)
    fix j assume j: "0 \<le> j \<and> j < ?p"
    show "hdr ! j = 0xff \<or> dummies_before hdr j < 32"
    proof (cases "j < length pre")
      case True
      then have "dummies_before hdr j = dummies_before pre j"
        by (simp add: hdr dummies_before_take)
      moreover from pre True have "\<not> 32 \<le> dummies_before pre j"
        by (auto simp: has_dummy_run_def)
      ultimately show ?thesis by simp
    next
      case False
      with j have "j - length pre < k" by linarith
      with False have "hdr ! j = 0xff"
        by (simp add: hdr nth_append)
      then show ?thesis ..
    qed
  qed
  have "scan_dummies hdr 0 (dummies_before hdr 0) = scan_dummies hdr ?p (dummies_before hdr ?p)"
    using p248 pl nostop by (intro scan_dummies_to [where n = ?p]) simp_all
  moreover have d32: "32 \<le> dummies_before hdr ?p"
    using dummies_before_run [of k pre "m @ post"] k by (simp add: hdr)
  moreover have "hdr ! ?p \<noteq> 0xff"
    using marker_facts [OF m] by (simp add: hdr nth_append)
  ultimately have scan: "scan_dummies hdr 0 0 = (?p, dummies_before hdr ?p)"
    by (subst (asm) (2) scan_dummies_unfold) simp
  have mem: "take 8 (drop ?p hdr) = m"
    using marker_facts(1) [OF m] by (simp add: hdr)
  from m show ?thesis
    unfolding is_marker_def
  proof
    assume "m = words_mem e buswords_noswap"
    with scan d32 mem show ?thesis
      by (simp add: analyze_xilinx_header_def memcmp_eq_def markers_differ [symmetric])
  next
    assume "m = words_mem e buswords_swap"
    with scan d32 mem show ?thesis
      by (simp add: analyze_xilinx_header_def memcmp_eq_def markers_differ)
  qed
qed

lemma analyze_no_run:
  assumes len: "length hdr = MAXHDR" and no: "\<not> has_dummy_run hdr"
  shows "analyze_xilinx_header e hdr = (- 1, False)"
proof -
  from no len have nostop: "\<forall>j. 0 \<le> j \<and> j < 248 \<longrightarrow> hdr ! j = 0xff \<or> dummies_before hdr j < 32"
    by (auto simp: has_dummy_run_def MAXHDR_def not_le)
  have "scan_dummies hdr 0 (dummies_before hdr 0) = scan_dummies hdr 248 (dummies_before hdr 248)"
    using len nostop by (intro scan_dummies_to [where n = 248]) (simp_all add: MAXHDR_def)
  then have "scan_dummies hdr 0 0 = (248, dummies_before hdr 248)"
    by (subst (asm) (2) scan_dummies_unfold) simp
  moreover from no len have "dummies_before hdr 248 < 32"
    by (auto simp: has_dummy_run_def MAXHDR_def not_le)
  ultimately show ?thesis
    by (simp add: analyze_xilinx_header_def)
qed

lemma analyze_success:
  assumes len: "length hdr = MAXHDR" and an: "analyze_xilinx_header e hdr = (strip, sw)"
    and ok: "0 \<le> strip"
  shows "strip \<le> 216"
    and "take 32 (drop (nat strip) hdr) = replicate 32 0xff"
    and "take 8 (drop (nat strip + 32) hdr) = words_mem e (if sw then buswords_swap else buswords_noswap)"
    and "fst (scan_dummies hdr 0 0) = nat strip + 32"
proof -
  obtain i d where scan: "scan_dummies hdr 0 0 = (i, d)"
    by (cases "scan_dummies hdr 0 0")
  with len have ex: "i \<le> 248 \<and> d = dummies_before hdr i"
    using scan_dummies_exit [of hdr 0 i d] by (simp add: MAXHDR_def)
  from an ok scan have d32: "32 \<le> d" and strip: "strip = int i - 32"
    and mk: "take 8 (drop i hdr) = words_mem e (if sw then buswords_swap else buswords_noswap)"
    by (auto simp: analyze_xilinx_header_def memcmp_eq_def split: if_splits)
  from ex d32 dummies_before_le [of hdr i] have i32: "32 \<le> i" by simp
  with strip have ns: "nat strip = i - 32" and i_eq: "i = nat strip + 32" by simp_all
  from ex strip show "strip \<le> 216" by simp
  from mk show "take 8 (drop (nat strip + 32) hdr) = words_mem e (if sw then buswords_swap else buswords_noswap)"
    by (simp add: i_eq)
  from scan show "fst (scan_dummies hdr 0 0) = nat strip + 32"
    by (simp add: i_eq)
  show "take 32 (drop (nat strip) hdr) = replicate 32 0xff"
  proof (rule nth_equalityI)
    show "length (take 32 (drop (nat strip) hdr)) = length (replicate 32 (0xff::byte))"
      using len ex i32 by (simp add: ns MAXHDR_def) linarith
  next
    fix t assume "t < length (take 32 (drop (nat strip) hdr))"
    then have t: "t < 32" by simp
    with d32 ex have "31 - t < dummies_before hdr i" by simp
    then have "hdr ! (i - Suc (31 - t)) = 0xff"
      using ex len by (intro dummies_before_nth) (simp_all add: MAXHDR_def)
    moreover from t i32 have "i - Suc (31 - t) = i - 32 + t" by simp
    ultimately have "hdr ! (i - 32 + t) = 0xff" by simp
    moreover have "drop (i - 32) hdr ! t = hdr ! (i - 32 + t)"
    proof (rule nth_drop)
      from ex have "i \<le> 248" ..
      with len show "i - 32 \<le> length hdr" by (simp add: MAXHDR_def)
    qed
    ultimately show "take 32 (drop (nat strip) hdr) ! t = replicate 32 0xff ! t"
      using t by (simp add: ns)
  qed
qed

text \<open>
  A byte sequence holds a padding run, in the sense of \<open>has_dummy_run\<close>, exactly when 32
  bytes \<open>0xff\<close> stand somewhere in it one after the other.
\<close>

lemma dummies_before_bytes:
  assumes n: "n \<le> dummies_before xs j" and j: "j \<le> length xs"
  shows "take n (drop (j - n) xs) = replicate n 0xff"
proof (rule nth_equalityI)
  from n dummies_before_le [of xs j] have nj: "n \<le> j" by simp
  with j show "length (take n (drop (j - n) xs)) = length (replicate n (0xff :: byte))"
    by simp
  fix t assume "t < length (take n (drop (j - n) xs))"
  then have t: "t < n" by simp
  with n have "n - Suc t < dummies_before xs j" by simp
  from dummies_before_nth [OF this j] have "xs ! (j - Suc (n - Suc t)) = 0xff" .
  moreover from t nj have "j - Suc (n - Suc t) = j - n + t" by simp
  ultimately have "xs ! (j - n + t) = 0xff" by simp
  moreover from j have "drop (j - n) xs ! t = xs ! (j - n + t)"
    by (intro nth_drop) simp
  ultimately show "take n (drop (j - n) xs) ! t = replicate n 0xff ! t"
    using t by simp
qed

lemma has_dummy_run_iff:
  "has_dummy_run xs \<longleftrightarrow> (\<exists>us vs. xs = us @ replicate 32 0xff @ vs)"
proof
  assume "has_dummy_run xs"
  then obtain j where j: "j \<le> length xs" and d: "32 \<le> dummies_before xs j"
    by (auto simp: has_dummy_run_def)
  from d dummies_before_le [of xs j] have j32: "32 \<le> j" by simp
  have "xs = take (j - 32) xs @ take 32 (drop (j - 32) xs) @ drop 32 (drop (j - 32) xs)"
    by (simp only: append_take_drop_id)
  also have "take 32 (drop (j - 32) xs) = replicate 32 0xff"
    using d j by (rule dummies_before_bytes)
  finally show "\<exists>us vs. xs = us @ replicate 32 0xff @ vs"
    by blast
next
  assume "\<exists>us vs. xs = us @ replicate 32 0xff @ vs"
  then obtain us vs where xs: "xs = us @ replicate 32 0xff @ vs"
    by blast
  from dummies_before_run [of 32 us vs] have "32 \<le> dummies_before xs (length us + 32)"
    by (simp add: xs)
  moreover have "length us + 32 \<le> length xs"
    by (simp add: xs)
  ultimately show "has_dummy_run xs"
    by (auto simp: has_dummy_run_def)
qed

lemma no_dummy_run_short: "length xs < 32 \<Longrightarrow> \<not> has_dummy_run xs"
proof
  assume "length xs < 32" and "has_dummy_run xs"
  then obtain j where "j \<le> length xs" and "32 \<le> dummies_before xs j"
    by (auto simp: has_dummy_run_def)
  with dummies_before_le [of xs j] \<open>length xs < 32\<close> show False by simp
qed

lemma no_dummy_run_free: "0xff \<notin> set xs \<Longrightarrow> \<not> has_dummy_run xs"
proof
  assume free: "0xff \<notin> set xs" and "has_dummy_run xs"
  then obtain j where j: "j \<le> length xs" and d: "32 \<le> dummies_before xs j"
    by (auto simp: has_dummy_run_def)
  then have "0 < dummies_before xs j" by simp
  from dummies_before_nth [OF this j] have "xs ! (j - Suc 0) = 0xff" .
  moreover from d dummies_before_le [of xs j] j have "j - Suc 0 < length xs" by simp
  ultimately show False using free by (metis nth_mem)
qed

section \<open>What the reads return\<close>

lemma nat_and_3: "(n::nat) AND 3 = n mod 4"
proof -
  have "(3::nat) = mask 2" by (simp add: mask_eq_exp_minus_1)
  then have "n AND 3 = take_bit 2 n" by (simp add: take_bit_eq_mask)
  then show ?thesis by (simp add: take_bit_eq_mod)
qed

lemma sys_write_room:
  "length bs \<le> room fout \<Longrightarrow>
   sys_write fout bs = (int (length bs), fout\<lparr>written := written fout @ bs, room := room fout - length bs\<rparr>)"
  by (simp add: sys_write_def Let_def min_absorb1)

lemma take_drop_split:
  assumes "s \<le> a"
  shows "drop s (take a P) @ take x (drop a P) = take (a - s + x) (drop s P)"
proof -
  have "take (a - s + x) (drop s P) = take (a - s) (drop s P) @ take x (drop (a - s) (drop s P))"
    by (rule take_add)
  moreover have "drop (a - s) (drop s P) = drop a P"
    using assms by simp
  moreover have "take (a - s) (drop s P) = drop s (take a P)"
    by (simp add: drop_take)
  ultimately show ?thesis by simp
qed

lemma align_arith0:
  fixes s :: nat
  assumes "s \<le> 216" and "s mod 4 = 0"
  shows "(256 - s) mod 4 = 0"
proof -
  from assms(2) have "4 dvd s" by (simp add: mod_eq_0_iff_dvd)
  then obtain q where q: "s = 4 * q" ..
  with assms(1) have "256 - s = 4 * (64 - q)" by simp
  then show ?thesis by simp
qed

lemma align_arith1:
  fixes s :: nat
  assumes "s \<le> 216" and "s mod 4 \<noteq> 0"
  shows "4 - (256 - s) mod 4 = s mod 4" and "(256 - s) mod 4 \<noteq> 0"
    and "4 dvd (256 - s + s mod 4)" and "256 - s + s mod 4 \<le> 256"
proof -
  define q r t where "q = s div 4" and "r = s mod 4" and "t = 4 - r"
  then have s: "s = 4 * q + r" and r: "r < 4" "r \<noteq> 0" and t: "t < 4" "t + r = 4" "t \<noteq> 0"
    using assms(2) by simp_all
  from assms(1) s have q: "q < 64" by simp
  then have eq: "256 - s = 4 * (63 - q) + t"
    using r t by (simp add: s)
  have "(4 * (63 - q) + t) mod 4 = t"
    using t(1) by simp
  with eq have m: "(256 - s) mod 4 = t" by simp
  with t show "4 - (256 - s) mod 4 = s mod 4" by (simp add: r_def)
  from m t show "(256 - s) mod 4 \<noteq> 0" by simp
  from eq t have "256 - s + r = 4 * (64 - q)" using q by simp
  then show "4 dvd (256 - s + s mod 4)" by (simp add: r_def)
  show "256 - s + s mod 4 \<le> 256"
    using s r by (simp add: r_def)
qed

lemma length_buf_store:
  "off + length bs \<le> length buf \<Longrightarrow> length (buf_store buf off bs) = length buf"
  by (simp add: buf_store_def)

lemma take_buf_store:
  "off \<le> length buf \<Longrightarrow> take (off + length bs) (buf_store buf off bs) = take off buf @ bs"
  by (simp add: buf_store_def)

lemma concat_pieces: "concat (dropWhile (\<lambda>c. c = []) xs) = concat xs"
  by (induction xs) simp_all

text \<open>What a read of at least one byte can return.\<close>

lemma sys_read_cases [consumes 1, case_names err eof data]:
  assumes "0 < cnt"
  obtains (err) "sys_read fin cnt = (- 1, [], fin)" and "content fin = []" and "ending fin = IOError"
  | (eof) "sys_read fin cnt = (0, [], fin)" and "content fin = []" and "ending fin = Eof"
  | (data) bs fin1 where "sys_read fin cnt = (int (length bs), bs, fin1)" and "bs \<noteq> []"
      and "length bs \<le> cnt" and "content fin = bs @ content fin1" and "ending fin1 = ending fin"
proof (cases "dropWhile (\<lambda>c. c = []) (pending fin)")
  case Nil
  with concat_pieces [of "pending fin"] have empty: "content fin = []"
    by (simp add: content_def)
  show ?thesis
  proof (cases "ending fin")
    case Eof
    have "sys_read fin cnt = (0, [], fin)"
      unfolding sys_read_def Nil by (simp add: Eof)
    with empty Eof show ?thesis by (intro eof)
  next
    case IOError
    have "sys_read fin cnt = (- 1, [], fin)"
      unfolding sys_read_def Nil by (simp add: IOError)
    with empty IOError show ?thesis by (intro err)
  qed
next
  case (Cons c cs)
  then have "c \<in> set (dropWhile (\<lambda>c. c = []) (pending fin))" by simp
  have c: "c \<noteq> []"
    using Cons hd_dropWhile [of "\<lambda>c. c = []" "pending fin"] by auto
  from Cons concat_pieces [of "pending fin"] have all: "content fin = c @ concat cs"
    by (simp add: content_def)
  show ?thesis
  proof (rule data)
    show "sys_read fin cnt = (int (length (take cnt c)), take cnt c, fin\<lparr>pending := drop cnt c # cs\<rparr>)"
      unfolding sys_read_def Cons by simp
    show "take cnt c \<noteq> []" using c assms by simp
    show "length (take cnt c) \<le> cnt" by simp
    show "content fin = take cnt c @ content (fin\<lparr>pending := drop cnt c # cs\<rparr>)"
      using all by (simp add: content_def)
    show "ending (fin\<lparr>pending := drop cnt c # cs\<rparr>) = ending fin" by simp
  qed
qed

lemma sys_read_full_all:
  assumes "sys_read fin cnt = (int cnt, bs, fin1)" and "0 < cnt"
  shows "bs = take cnt (content fin) \<and> content fin1 = drop cnt (content fin)
      \<and> cnt \<le> length (content fin) \<and> ending fin1 = ending fin"
  using assms(2)
proof (cases rule: sys_read_cases [where fin = fin and cnt = cnt])
  case err
  with assms show ?thesis by simp
next
  case eof
  with assms show ?thesis by simp
next
  case (data bs' fin')
  have "(int (length bs'), bs', fin') = (int cnt, bs, fin1)"
    using data(1) [symmetric] assms(1) by (rule trans)
  then have eqs: "bs' = bs" "fin' = fin1" and len: "length bs = cnt" by auto
  from data(4,5) len show ?thesis unfolding eqs by simp
qed

lemma sys_read_full:
  assumes "sys_read fin cnt = (int cnt, bs, fin1)" and "0 < cnt"
  shows "bs = take cnt (content fin)" and "content fin1 = drop cnt (content fin)"
    and "cnt \<le> length (content fin)" and "ending fin1 = ending fin"
  using sys_read_full_all [OF assms] by simp_all

lemma sys_read_short:
  assumes "length (content fin) < cnt"
  shows "fst (sys_read fin cnt) \<noteq> int cnt"
proof -
  from assms have "0 < cnt" by simp
  then show ?thesis
  proof (cases rule: sys_read_cases [where fin = fin and cnt = cnt])
    case (data bs fin1)
    with assms show ?thesis by simp
  qed (use assms in simp_all)
qed

lemma xbit2bin_header_short:
  assumes "fst (sys_read fin MAXHDR) \<noteq> int MAXHDR"
  shows "xbit2bin_header e fin = None"
  using assms by (cases "sys_read fin MAXHDR") (simp add: xbit2bin_header_def)

lemma xbit2bin_header_bad:
  assumes "fst (analyze_xilinx_header e (take MAXHDR (content fin))) < 0"
  shows "xbit2bin_header e fin = None"
proof (cases "fst (sys_read fin MAXHDR) = int MAXHDR")
  case False
  then show ?thesis by (rule xbit2bin_header_short)
next
  case True
  then obtain hdr fin1 where rd: "sys_read fin MAXHDR = (int MAXHDR, hdr, fin1)"
    by (cases "sys_read fin MAXHDR") simp
  from sys_read_full(1) [OF rd] have "hdr = take MAXHDR (content fin)"
    by (simp add: MAXHDR_def)
  with assms rd show ?thesis
    by (cases "analyze_xilinx_header e (take MAXHDR (content fin))") (simp add: xbit2bin_header_def)
qed

lemma header_reads_Some:
  assumes "header_reads fin k = Some fin2"
  obtains fin1 where "sys_read fin MAXHDR = (int MAXHDR, take MAXHDR (content fin), fin1)"
    and "content fin1 = drop MAXHDR (content fin)"
    and "k = 0 \<longrightarrow> fin2 = fin1"
    and "0 < k \<longrightarrow> sys_read fin1 k = (int k, take k (drop MAXHDR (content fin)), fin2)"
    and "content fin2 = drop (MAXHDR + k) (content fin)"
    and "MAXHDR + k \<le> length (content fin)"
    and "ending fin2 = ending fin"
proof -
  obtain r hdr fin1 where rd0: "sys_read fin MAXHDR = (r, hdr, fin1)"
    by (cases "sys_read fin MAXHDR")
  with assms have r: "r = int MAXHDR"
    by (auto simp: header_reads_def split: if_splits)
  have pos: "0 < MAXHDR" by (simp add: MAXHDR_def)
  note full = sys_read_full [OF rd0 [unfolded r] pos]
  have rd: "sys_read fin MAXHDR = (int MAXHDR, take MAXHDR (content fin), fin1)"
    using rd0 r full(1) by simp
  show thesis
  proof (cases "k = 0")
    case True
    with assms rd have "fin2 = fin1"
      by (simp add: header_reads_def)
    with True rd full show ?thesis
      by (intro that [of fin1]) simp_all
  next
    case False
    obtain r2 bs f2 where rd2: "sys_read fin1 k = (r2, bs, f2)"
      by (cases "sys_read fin1 k")
    with assms rd False have r2: "r2 = int k" and f2: "f2 = fin2"
      by (auto simp: header_reads_def split: if_splits)
    from False have kpos: "0 < k" by simp
    note full2 = sys_read_full [OF rd2 [unfolded r2 f2] kpos]
    show ?thesis
    proof (rule that [of fin1])
      show "sys_read fin MAXHDR = (int MAXHDR, take MAXHDR (content fin), fin1)" by (rule rd)
      show "content fin1 = drop MAXHDR (content fin)" by (rule full(2))
      show "k = 0 \<longrightarrow> fin2 = fin1" using False by simp
      show "0 < k \<longrightarrow> sys_read fin1 k = (int k, take k (drop MAXHDR (content fin)), fin2)"
        using rd2 r2 f2 full2(1) full(2) by simp
      show "content fin2 = drop (MAXHDR + k) (content fin)"
        using full2(2) full(2) by (simp add: add.commute)
      show "MAXHDR + k \<le> length (content fin)"
        using full2(3) full(2,3) by simp
      show "ending fin2 = ending fin"
        using full2(4) full(4) by simp
    qed
  qed
qed

section \<open>The header and the copy loop\<close>

lemma take_rev_words: "take (4 * k) (rev_words xs) = rev_words (take (4 * k) xs)"
proof (induction k arbitrary: xs)
  case 0
  then show ?case by simp
next
  case (Suc k)
  show ?case
  proof (cases xs rule: rev_words.cases)
    case (1 a b c d ys)
    have "4 * Suc k = Suc (Suc (Suc (Suc (4 * k))))" by simp
    with 1 Suc.IH [of ys] show ?thesis by (simp only: rev_words.simps take_Suc_Cons)
  qed simp_all
qed

lemma datbuf_words: "DATBUF_SIZE = 4 * 16384"
  by (simp add: DATBUF_SIZE_def)

lemma round_up_le:
  fixes c :: nat
  assumes "c \<le> 4 * K"
  shows "4 * ((c + 3) div 4) \<le> 4 * K"
proof -
  from assms have "(c + 3) div 4 \<le> (4 * K + 3) div 4"
    by (intro div_le_mono) simp
  then show ?thesis by simp
qed

lemma round_up_ge: "(c::nat) \<le> 4 * ((c + 3) div 4)"
  by presburger

lemma round_down_le: "4 * ((c::nat) div 4) \<le> c"
  by simp

lemma copy_chunk_swap:
  assumes le: "length bs \<le> DATBUF_SIZE" and len: "length datbuf = DATBUF_SIZE"
  shows "length (xbit2bin_bswap e (buf_store datbuf 0 bs) (length bs)) = DATBUF_SIZE"
    and "length (take (length bs) (xbit2bin_bswap e (buf_store datbuf 0 bs) (length bs))) = length bs"
    and "take (4 * (length bs div 4)) (take (length bs) (xbit2bin_bswap e (buf_store datbuf 0 bs) (length bs)))
         = rev_words (take (4 * (length bs div 4)) bs)"
proof -
  define c m B where "c = length bs" and "m = 4 * ((c + 3) div 4)" and "B = buf_store datbuf 0 bs"
  have B: "B = bs @ drop c datbuf"
    by (simp add: B_def c_def buf_store_def)
  with le len have lenB: "length B = DATBUF_SIZE"
    by (simp add: c_def)
  from le have mle: "m \<le> DATBUF_SIZE"
    unfolding m_def c_def datbuf_words by (rule round_up_le)
  have cm: "c \<le> m" unfolding m_def by (rule round_up_ge)
  have fl: "4 * (c div 4) \<le> c" by (rule round_down_le)
  have sw: "xbit2bin_bswap e B c = rev_words (take m B) @ drop m B"
    unfolding m_def using mle lenB by (intro xbit2bin_bswap_eq) (simp add: m_def)
  from sw mle lenB show "length (xbit2bin_bswap e (buf_store datbuf 0 bs) (length bs)) = DATBUF_SIZE"
    by (simp add: B_def [symmetric] c_def [symmetric])
  from sw mle lenB le show "length (take (length bs) (xbit2bin_bswap e (buf_store datbuf 0 bs) (length bs))) = length bs"
    by (simp add: B_def [symmetric] c_def [symmetric])
  have "take (4 * (c div 4)) (take c (xbit2bin_bswap e B c)) = take (4 * (c div 4)) (xbit2bin_bswap e B c)"
    using fl by (simp add: min_absorb1)
  also have "\<dots> = take (4 * (c div 4)) (rev_words (take m B))"
    using fl cm mle lenB by (simp add: sw)
  also have "\<dots> = rev_words (take (4 * (c div 4)) (take m B))"
    by (rule take_rev_words)
  also have "take (4 * (c div 4)) (take m B) = take (4 * (c div 4)) B"
    using fl cm by (simp add: min_absorb1)
  also have "take (4 * (c div 4)) B = take (4 * (c div 4)) bs"
    using fl by (simp add: B c_def)
  finally show "take (4 * (length bs div 4)) (take (length bs) (xbit2bin_bswap e (buf_store datbuf 0 bs) (length bs)))
         = rev_words (take (4 * (length bs div 4)) bs)"
    by (simp add: B_def [symmetric] c_def [symmetric])
qed

lemma take_buf_store_0: "take (length bs) (buf_store datbuf 0 bs) = bs"
  by (simp add: buf_store_def)

lemma words_combine:
  assumes A: "4 dvd length A" and W: "length W = length B"
    and tk: "take (4 * (length B div 4)) W = rev_words (take (4 * (length B div 4)) B)"
  shows "take (4 * (length (A @ B) div 4)) (rev_words A @ W)
         = rev_words (take (4 * (length (A @ B) div 4)) (A @ B))"
proof -
  from A obtain k where k: "length A = 4 * k" ..
  define j where "j = length B div 4"
  have idx: "4 * (length (A @ B) div 4) = length A + 4 * j"
    by (simp add: k j_def)
  have "take (length A + 4 * j) (rev_words A @ W) = rev_words A @ take (4 * j) W"
    by simp
  also have "\<dots> = rev_words A @ rev_words (take (4 * j) B)"
    using tk by (simp add: j_def)
  also have "\<dots> = rev_words (A @ take (4 * j) B)"
    using A by (simp add: rev_words_append)
  also have "A @ take (4 * j) B = take (length A + 4 * j) (A @ B)"
    by simp
  finally show ?thesis
    by (simp only: idx)
qed

lemma hdr_count:
  fixes s :: nat
  assumes "s \<le> 216"
  shows "4 dvd (MAXHDR - s + s mod 4)" and "MAXHDR - s + s mod 4 + s = MAXHDR + s mod 4"
    and "MAXHDR - s + s mod 4 \<le> MAXHDR"
proof -
  show "4 dvd (MAXHDR - s + s mod 4)"
  proof (cases "s mod 4 = 0")
    case True
    with assms have "(256 - s) mod 4 = 0" by (rule align_arith0)
    with True show ?thesis by (simp add: MAXHDR_def mod_eq_0_iff_dvd)
  next
    case False
    with assms show ?thesis unfolding MAXHDR_def by (rule align_arith1)
  qed
  from assms show "MAXHDR - s + s mod 4 + s = MAXHDR + s mod 4"
    by (simp add: MAXHDR_def)
  show "MAXHDR - s + s mod 4 \<le> MAXHDR"
  proof (cases "s mod 4 = 0")
    case True
    then show ?thesis by simp
  next
    case False
    with assms show ?thesis unfolding MAXHDR_def by (rule align_arith1)
  qed
qed

lemma xbit2bin_after_header:
  assumes "xbit2bin_header e fin = Some (sw, hdr, n, fin1)"
    and "length (take n hdr) = n" and "n \<le> room fout"
  shows "xbit2bin e fin fout datbuf
         = xbit2bin_copy e sw fin1
             (fout\<lparr>written := written fout @ take n hdr, room := room fout - n\<rparr>) datbuf"
proof -
  from assms(2,3) have "length (take n hdr) \<le> room fout" by simp
  from sys_write_room [OF this] assms(2)
  have "sys_write fout (take n hdr)
        = (int n, fout\<lparr>written := written fout @ take n hdr, room := room fout - n\<rparr>)"
    by simp
  with assms(1) show ?thesis
    by (simp add: xbit2bin_def)
qed

lemma analyze_result:
  assumes len: "length hdr = MAXHDR" and an: "analyze_xilinx_header e hdr = (strip, sw)"
    and ok: "strip \<noteq> - 1"
  shows "0 \<le> strip"
proof -
  obtain i d where scan: "scan_dummies hdr 0 0 = (i, d)"
    by (cases "scan_dummies hdr 0 0")
  with len have ex: "d = dummies_before hdr i"
    using scan_dummies_exit [of hdr 0 i d] by (simp add: MAXHDR_def)
  from an ok scan have d32: "32 \<le> d" and strip: "strip = int i - 32"
    by (auto simp: analyze_xilinx_header_def split: if_splits)
  from ex d32 dummies_before_le [of hdr i] have "32 \<le> i" by simp
  with strip show ?thesis by simp
qed

lemma xbit2bin_header_ok:
  assumes hr: "header_reads fin (nat strip mod 4) = Some fin2"
    and an: "analyze_xilinx_header e (take MAXHDR (content fin)) = (strip, sw)"
    and ok: "0 \<le> strip"
  shows "\<exists>hdr. xbit2bin_header e fin
           = Some (sw, hdr, MAXHDR - nat strip + nat strip mod 4, fin2)
         \<and> take (MAXHDR - nat strip + nat strip mod 4) hdr
           = (if sw then rev_words (take (MAXHDR - nat strip + nat strip mod 4) (drop (nat strip) (content fin)))
              else take (MAXHDR - nat strip + nat strip mod 4) (drop (nat strip) (content fin)))"
proof -
  let ?P = "content fin" and ?s = "nat strip"
  let ?H = "take MAXHDR ?P"
  let ?n = "MAXHDR - ?s"
  let ?x = "?s mod 4"
  from hr obtain fin1 where rd: "sys_read fin MAXHDR = (int MAXHDR, ?H, fin1)"
    and c1: "content fin1 = drop MAXHDR ?P"
    and same: "?x = 0 \<longrightarrow> fin2 = fin1"
    and rd2: "0 < ?x \<longrightarrow> sys_read fin1 ?x = (int ?x, take ?x (drop MAXHDR ?P), fin2)"
    and c2: "content fin2 = drop (MAXHDR + ?x) ?P"
    and al: "MAXHDR + ?x \<le> length ?P"
    and e2: "ending fin2 = ending fin"
    by (rule header_reads_Some)
  define hdr1 where "hdr1 = (if strip > 0 then buf_store ?H 0 (take ?n (drop ?s ?H)) else ?H)"
  from al have lenH: "length ?H = MAXHDR" by simp
  from analyze_success(1) [OF this an ok] have s216: "?s \<le> 216" by simp
  then have sM: "?s \<le> MAXHDR" by (simp add: MAXHDR_def)
  have len1: "length hdr1 = MAXHDR"
    using lenH sM by (simp add: hdr1_def buf_store_def)
  have tk1: "take ?n hdr1 = drop ?s ?H"
    using lenH sM ok by (auto simp: hdr1_def buf_store_def)
  show ?thesis
  proof (cases "?x = 0")
    case True
    with s216 have n4: "?n mod 4 = 0" unfolding MAXHDR_def by (rule align_arith0)
    then have dvd: "4 dvd ?n" by (simp add: mod_eq_0_iff_dvd)
    have "take ?n (xbit2bin_bswap e hdr1 ?n) = rev_words (take ?n hdr1)"
      using len1 by (simp add: xbit2bin_bswap_aligned [OF dvd])
    moreover have "drop ?s ?H = take ?n (drop ?s ?P)"
      by (simp add: drop_take)
    moreover have "xbit2bin_header e fin
          = Some (sw, if sw then xbit2bin_bswap e hdr1 ?n else hdr1, ?n, fin1)"
      using rd an ok n4
      by (simp add: xbit2bin_header_def Let_def nat_and_3 hdr1_def del: of_nat_diff)
    ultimately show ?thesis
      using True tk1 same by (cases sw) simp_all
  next
    case False
    with s216 have cnt: "4 - ?n mod 4 = ?x" and n4: "?n mod 4 \<noteq> 0"
      and n2: "4 dvd (?n + ?x)" and n2le: "?n + ?x \<le> MAXHDR"
      unfolding MAXHDR_def by (rule align_arith1)+
    define extra where "extra = take ?x (drop MAXHDR ?P)"
    from False have "0 < ?x" by simp
    with rd2 have rd2': "sys_read fin1 ?x = (int ?x, extra, fin2)"
      by (simp only: extra_def simp_thms)
    have lex: "length extra = ?x"
      using al by (simp add: extra_def)
    define hdr2 where "hdr2 = buf_store hdr1 ?n extra"
    have len2: "length hdr2 = MAXHDR"
      unfolding hdr2_def using len1 lex n2le by (simp add: length_buf_store)
    have "take (?n + length extra) hdr2 = take ?n hdr1 @ extra"
      unfolding hdr2_def using len1 by (intro take_buf_store) simp
    then have "take (?n + ?x) hdr2 = take ?n hdr1 @ extra"
      by (simp only: lex)
    then have "take (?n + ?x) hdr2 = drop ?s ?H @ take ?x (drop MAXHDR ?P)"
      by (simp only: tk1 extra_def)
    also have "\<dots> = take (?n + ?x) (drop ?s ?P)"
      using sM by (rule take_drop_split)
    finally have tk2: "take (?n + ?x) hdr2 = take (?n + ?x) (drop ?s ?P)" .
    have sw2: "take (?n + ?x) (xbit2bin_bswap e hdr2 (?n + ?x)) = rev_words (take (?n + ?x) hdr2)"
      using len2 n2le by (simp add: xbit2bin_bswap_aligned [OF n2])
    have "xbit2bin_header e fin
          = Some (sw, if sw then xbit2bin_bswap e hdr2 (?n + ?x) else hdr2, ?n + ?x, fin2)"
      using rd an ok n4 rd2'
      by (simp add: xbit2bin_header_def Let_def nat_and_3 cnt hdr1_def hdr2_def del: of_nat_diff)
    with sw2 tk2 show ?thesis
      by (cases sw) simp_all
  qed
qed

lemma xbit2bin_header_None:
  assumes hr: "header_reads fin (nat strip mod 4) = None"
    and an: "analyze_xilinx_header e (take MAXHDR (content fin)) = (strip, sw)"
    and ok: "0 \<le> strip"
  shows "xbit2bin_header e fin = None"
proof (cases "fst (sys_read fin MAXHDR) = int MAXHDR")
  case False
  then show ?thesis by (rule xbit2bin_header_short)
next
  case True
  let ?s = "nat strip"
  let ?n = "MAXHDR - ?s"
  from True obtain hdr fin1 where rd: "sys_read fin MAXHDR = (int MAXHDR, hdr, fin1)"
    by (cases "sys_read fin MAXHDR") simp
  have pos: "0 < MAXHDR" by (simp add: MAXHDR_def)
  note full = sys_read_full [OF rd pos]
  from full(3) have "length (take MAXHDR (content fin)) = MAXHDR" by simp
  from analyze_success(1) [OF this an ok] have s216: "?s \<le> 216" by simp
  obtain r2 extra f2 where rd2: "sys_read fin1 (?s mod 4) = (r2, extra, f2)"
    by (cases "sys_read fin1 (?s mod 4)")
  from hr rd rd2 have x0: "?s mod 4 \<noteq> 0" and r2: "r2 \<noteq> int (?s mod 4)"
    by (auto simp: header_reads_def split: if_splits)
  from s216 x0 have cnt: "4 - ?n mod 4 = ?s mod 4" and n4: "?n mod 4 \<noteq> 0"
    unfolding MAXHDR_def by (rule align_arith1)+
  from rd an ok n4 rd2 r2 full(1) show ?thesis
    by (simp add: xbit2bin_header_def Let_def nat_and_3 cnt del: of_nat_diff)
qed

lemma xbit2bin_header_Some:
  assumes hd: "xbit2bin_header e fin = Some r"
    and an: "analyze_xilinx_header e (take MAXHDR (content fin)) = (strip, sw)"
  shows "0 \<le> strip" and "\<exists>fin2. header_reads fin (nat strip mod 4) = Some fin2"
    and "MAXHDR \<le> length (content fin)"
proof -
  show ok: "0 \<le> strip"
  proof (rule ccontr)
    assume "\<not> 0 \<le> strip"
    with an have "fst (analyze_xilinx_header e (take MAXHDR (content fin))) < 0" by simp
    from xbit2bin_header_bad [OF this] hd show False by simp
  qed
  show "\<exists>fin2. header_reads fin (nat strip mod 4) = Some fin2"
  proof (rule ccontr)
    assume "\<not> (\<exists>fin2. header_reads fin (nat strip mod 4) = Some fin2)"
    then have "header_reads fin (nat strip mod 4) = None" by simp
    from xbit2bin_header_None [OF this an ok] hd show False by simp
  qed
  show "MAXHDR \<le> length (content fin)"
  proof (rule ccontr)
    assume "\<not> MAXHDR \<le> length (content fin)"
    then have "length (content fin) < MAXHDR" by simp
    from xbit2bin_header_short [OF sys_read_short [OF this]] hd show False by simp
  qed
qed

lemma xbit2bin_header_align_fail:
  assumes an: "analyze_xilinx_header e (take MAXHDR (content fin)) = (strip, sw)"
    and ok: "0 \<le> strip"
    and short: "length (content fin) < MAXHDR + nat strip mod 4"
  shows "xbit2bin_header e fin = None"
proof (cases "header_reads fin (nat strip mod 4)")
  case None
  from xbit2bin_header_None [OF this an ok] show ?thesis .
next
  case (Some fin2)
  then have "MAXHDR + nat strip mod 4 \<le> length (content fin)"
    by (rule header_reads_Some)
  with short show ?thesis by simp
qed

lemma copy_eof:
  assumes "content fin = []" and "ending fin = Eof"
  shows "xbit2bin_copy e sw fin fout datbuf = (0, fout)"
proof -
  have "0 < DATBUF_SIZE" by (simp add: DATBUF_SIZE_def)
  then have "sys_read fin DATBUF_SIZE = (0, [], fin)"
  proof (cases rule: sys_read_cases [where fin = fin and cnt = DATBUF_SIZE])
    case err
    with assms show ?thesis by simp
  next
    case eof
    then show ?thesis by simp
  next
    case (data bs fin1)
    with assms show ?thesis by simp
  qed
  then show ?thesis
    by (subst xbit2bin_copy.simps) simp
qed

lemma copy_unfold:
  assumes rd: "sys_read fin DATBUF_SIZE = (int (length bs), bs, fin1)" and ne: "bs \<noteq> []"
  shows "xbit2bin_copy e sw fin fout datbuf
     = (let datbuf2 = (if sw then xbit2bin_bswap e (buf_store datbuf 0 bs) (length bs)
                       else buf_store datbuf 0 bs)
        in case sys_write fout (take (length bs) datbuf2) of (w, fout1) \<Rightarrow>
             if w \<noteq> int (length bs) then (- 1, fout1)
             else xbit2bin_copy e sw fin1 fout1 datbuf2)"
proof -
  from ne have "int (length bs) \<noteq> 0" and "\<not> int (length bs) < 0"
    by simp_all
  then show ?thesis
    by (subst xbit2bin_copy.simps)
       (simp only: rd prod.case Let_def if_False nat_int)
qed

lemma copy_step:
  assumes rd: "sys_read fin DATBUF_SIZE = (int (length bs), bs, fin1)" and ne: "bs \<noteq> []"
    and buf2: "datbuf2 = (if sw then xbit2bin_bswap e (buf_store datbuf 0 bs) (length bs)
                          else buf_store datbuf 0 bs)"
    and V: "V = take (length bs) datbuf2"
    and lenV: "length V = length bs"
    and room: "length V \<le> room fout"
  shows "xbit2bin_copy e sw fin fout datbuf
         = xbit2bin_copy e sw fin1
             (fout\<lparr>written := written fout @ V, room := room fout - length V\<rparr>) datbuf2"
proof -
  have wr: "sys_write fout V = (int (length V), fout\<lparr>written := written fout @ V, room := room fout - length V\<rparr>)"
    using room by (rule sys_write_room)
  have "xbit2bin_copy e sw fin fout datbuf
        = (case sys_write fout V of (w, fout1) \<Rightarrow>
             if w \<noteq> int (length V) then (- 1, fout1)
             else xbit2bin_copy e sw fin1 fout1 datbuf2)"
  proof -
    have "xbit2bin_copy e sw fin fout datbuf
        = (case sys_write fout (take (length bs) datbuf2) of (w, fout1) \<Rightarrow>
             if w \<noteq> int (length bs) then (- 1, fout1)
             else xbit2bin_copy e sw fin1 fout1 datbuf2)"
      by (simp only: copy_unfold [OF rd ne] Let_def buf2 [symmetric])
    then have "xbit2bin_copy e sw fin fout datbuf
        = (case sys_write fout V of (w, fout1) \<Rightarrow>
             if w \<noteq> int (length bs) then (- 1, fout1)
             else xbit2bin_copy e sw fin1 fout1 datbuf2)"
      by (simp only: V [symmetric])
    then show ?thesis
      by (simp only: lenV [symmetric])
  qed
  then show ?thesis
    by (simp only: wr prod.case simp_thms if_False)
qed

text \<open>Without the swap the loop copies the rest of the input, however the
  reads cut it.\<close>

lemma copy_noswap:
  "ending fin = Eof \<Longrightarrow> length (content fin) \<le> room fout \<Longrightarrow>
   xbit2bin_copy e False fin fout datbuf
   = (0, fout\<lparr>written := written fout @ content fin, room := room fout - length (content fin)\<rparr>)"
proof (induction "length (content fin)" arbitrary: fin fout datbuf rule: less_induct)
  case less
  have "0 < DATBUF_SIZE" by (simp add: DATBUF_SIZE_def)
  then show ?case
  proof (cases rule: sys_read_cases [where fin = fin and cnt = DATBUF_SIZE])
    case err
    with less.prems show ?thesis by simp
  next
    case eof
    with less.prems show ?thesis by (simp add: copy_eof)
  next
    case (data bs fin1)
    let ?fout1 = "fout\<lparr>written := written fout @ bs, room := room fout - length bs\<rparr>"
    have V: "bs = take (length bs) (buf_store datbuf 0 bs)"
      by (rule take_buf_store_0 [symmetric])
    have "xbit2bin_copy e False fin fout datbuf
          = xbit2bin_copy e False fin1 ?fout1 (buf_store datbuf 0 bs)"
      using less.prems(2) data(4) by (intro copy_step [OF data(1,2) _ V]) simp_all
    also have "\<dots> = (0, ?fout1\<lparr>written := written ?fout1 @ content fin1,
                                 room := room ?fout1 - length (content fin1)\<rparr>)"
      using less.prems data by (intro less.hyps) simp_all
    also have "\<dots> = (0, fout\<lparr>written := written fout @ content fin, room := room fout - length (content fin)\<rparr>)"
      by (simp add: data(4))
    finally show ?thesis .
  qed
qed

text \<open>With the swap the loop reverses the complete words of the rest of the
  input when every read but the last returns whole words.\<close>

lemma copy_swap:
  "ending fin = Eof \<Longrightarrow> length (content fin) \<le> room fout \<Longrightarrow> length datbuf = DATBUF_SIZE \<Longrightarrow>
   word_reads fin \<Longrightarrow>
   \<exists>W. xbit2bin_copy e True fin fout datbuf
         = (0, fout\<lparr>written := written fout @ W, room := room fout - length (content fin)\<rparr>)
       \<and> length W = length (content fin)
       \<and> take (4 * (length (content fin) div 4)) W
         = rev_words (take (4 * (length (content fin) div 4)) (content fin))"
proof (induction "length (content fin)" arbitrary: fin fout datbuf rule: less_induct)
  case less
  have "0 < DATBUF_SIZE" by (simp add: DATBUF_SIZE_def)
  then show ?case
  proof (cases rule: sys_read_cases [where fin = fin and cnt = DATBUF_SIZE])
    case err
    with less.prems show ?thesis by simp
  next
    case eof
    with less.prems have "xbit2bin_copy e True fin fout datbuf
        = (0, fout\<lparr>written := written fout @ [], room := room fout - length (content fin)\<rparr>)"
      by (simp add: copy_eof)
    with eof show ?thesis by (intro exI [of _ "[]"]) simp
  next
    case (data bs fin1)
    define datbuf2 where "datbuf2 = xbit2bin_bswap e (buf_store datbuf 0 bs) (length bs)"
    define V where "V = take (length bs) datbuf2"
    let ?fout1 = "fout\<lparr>written := written fout @ V, room := room fout - length V\<rparr>"
    note P = data(4)
    note chunk = copy_chunk_swap [OF data(3) less.prems(3), of e]
    have len2: "length datbuf2 = DATBUF_SIZE"
      unfolding datbuf2_def by (rule chunk(1))
    have lenV: "length V = length bs"
      unfolding V_def datbuf2_def by (rule chunk(2))
    have tkV: "take (4 * (length bs div 4)) V = rev_words (take (4 * (length bs div 4)) bs)"
      unfolding V_def datbuf2_def by (rule chunk(3))
    have step: "xbit2bin_copy e True fin fout datbuf = xbit2bin_copy e True fin1 ?fout1 datbuf2"
    proof (rule copy_step [OF data(1,2)])
      show "datbuf2 = (if True then xbit2bin_bswap e (buf_store datbuf 0 bs) (length bs)
                       else buf_store datbuf 0 bs)"
        by (simp only: datbuf2_def if_True)
      show "V = take (length bs) datbuf2"
        by (simp only: V_def)
      show "length V = length bs" by (rule lenV)
      show "length V \<le> room fout"
        using less.prems(2) lenV by (simp add: P)
    qed
    from less.prems(4) data(1,2)
    have wr: "content fin1 = [] \<or> 4 dvd length bs \<and> word_reads fin1"
      by (subst (asm) word_reads.simps) (auto split: if_splits)
    have "\<exists>W. xbit2bin_copy e True fin1 ?fout1 datbuf2
         = (0, ?fout1\<lparr>written := written ?fout1 @ W, room := room ?fout1 - length (content fin1)\<rparr>)
       \<and> length W = length (content fin1)
       \<and> take (4 * (length (content fin1) div 4)) W
         = rev_words (take (4 * (length (content fin1) div 4)) (content fin1))"
    proof (cases "content fin1 = []")
      case True
      with less.prems(1) data(5) have "xbit2bin_copy e True fin1 ?fout1 datbuf2
          = (0, ?fout1\<lparr>written := written ?fout1 @ [], room := room ?fout1 - length (content fin1)\<rparr>)"
        by (simp add: copy_eof)
      with True show ?thesis by (intro exI [of _ "[]"]) simp
    next
      case False
      with wr have "word_reads fin1" by simp
      with less.prems data(2,5) lenV len2 show ?thesis
        by (intro less.hyps) (simp_all add: P)
    qed
    then obtain W' where run: "xbit2bin_copy e True fin1 ?fout1 datbuf2
         = (0, ?fout1\<lparr>written := written ?fout1 @ W', room := room ?fout1 - length (content fin1)\<rparr>)"
      and lenW': "length W' = length (content fin1)"
      and tkW': "take (4 * (length (content fin1) div 4)) W'
                 = rev_words (take (4 * (length (content fin1) div 4)) (content fin1))"
      by auto
    have res: "xbit2bin_copy e True fin fout datbuf
        = (0, fout\<lparr>written := written fout @ (V @ W'), room := room fout - length (content fin)\<rparr>)"
    proof -
      have "?fout1\<lparr>written := written ?fout1 @ W', room := room ?fout1 - length (content fin1)\<rparr>
            = fout\<lparr>written := written fout @ (V @ W'), room := room fout - length (content fin)\<rparr>"
        using lenV by (simp add: P)
      with step run show ?thesis by (simp only:)
    qed
    have lenW: "length (V @ W') = length (content fin)"
      using lenV lenW' by (simp add: P)
    have "take (4 * (length (content fin) div 4)) (V @ W')
          = rev_words (take (4 * (length (content fin) div 4)) (content fin))"
    proof (cases "content fin1 = []")
      case True
      with lenW' have "W' = []" by simp
      with True tkV show ?thesis by (simp add: P)
    next
      case False
      with wr have dvd: "4 dvd length bs" by simp
      with tkV lenV have "V = rev_words bs"
        by (auto elim!: dvdE)
      with words_combine [OF dvd lenW' tkW'] show ?thesis
        by (simp only: P)
    qed
    with res lenW show ?thesis by blast
  qed
qed

section \<open>The whole run\<close>

lemma analyze_input_run:
  assumes len: "MAXHDR \<le> length P"
    and an: "analyze_xilinx_header e (take MAXHDR P) = (strip, sw)"
    and ok: "strip \<noteq> - 1"
  shows "take 32 (drop (nat strip) P) = replicate 32 0xff"
    and "take 8 (drop (nat strip + 32) P)
         = words_mem e (if sw then buswords_swap else buswords_noswap)"
proof -
  from len have lenH: "length (take MAXHDR P) = MAXHDR" by simp
  from analyze_result [OF lenH an ok] have ok': "0 \<le> strip" .
  note facts = analyze_success [OF lenH an ok']
  from facts(1) ok' have s216: "nat strip \<le> 216" by simp
  have "take 32 (drop (nat strip) (take MAXHDR P)) = take 32 (drop (nat strip) P)"
    using s216 by (simp add: drop_take MAXHDR_def min_absorb1)
  with facts(2) show "take 32 (drop (nat strip) P) = replicate 32 0xff"
    by simp
  have "take 8 (drop (nat strip + 32) (take MAXHDR P)) = take 8 (drop (nat strip + 32) P)"
    using s216 by (simp add: drop_take MAXHDR_def min_absorb1)
  with facts(3) show "take 8 (drop (nat strip + 32) P)
         = words_mem e (if sw then buswords_swap else buswords_noswap)"
    by simp
qed

text \<open>
  The run up to the copy loop, for an input that passes the header stage.
\<close>

lemma xbit2bin_to_copy:
  assumes hr: "header_reads fin (nat strip mod 4) = Some fin2"
    and an: "analyze_xilinx_header e (take MAXHDR (content fin)) = (strip, sw)"
    and ok: "0 \<le> strip"
    and room: "length (content fin) - nat strip \<le> room fout"
  defines "n \<equiv> MAXHDR - nat strip + nat strip mod 4"
  defines "X \<equiv> take n (drop (nat strip) (content fin))"
  shows "xbit2bin e fin fout datbuf
         = xbit2bin_copy e sw fin2
             (fout\<lparr>written := written fout @ (if sw then rev_words X else X),
                   room := room fout - n\<rparr>) datbuf"
    and "length X = n" and "4 dvd n" and "n \<le> length (content fin) - nat strip"
    and "content fin2 = drop n (drop (nat strip) (content fin))"
    and "ending fin2 = ending fin"
proof -
  from hr obtain fin1 where "sys_read fin MAXHDR = (int MAXHDR, take MAXHDR (content fin), fin1)"
    and "content fin1 = drop MAXHDR (content fin)"
    and "nat strip mod 4 = 0 \<longrightarrow> fin2 = fin1"
    and "0 < nat strip mod 4 \<longrightarrow> sys_read fin1 (nat strip mod 4)
           = (int (nat strip mod 4), take (nat strip mod 4) (drop MAXHDR (content fin)), fin2)"
    and c2: "content fin2 = drop (MAXHDR + nat strip mod 4) (content fin)"
    and al: "MAXHDR + nat strip mod 4 \<le> length (content fin)"
    and e2: "ending fin2 = ending fin"
    by (rule header_reads_Some)
  from al have "length (take MAXHDR (content fin)) = MAXHDR" by simp
  from analyze_success(1) [OF this an ok] have s216: "nat strip \<le> 216" by simp
  note cnt = hdr_count [OF s216, folded n_def]
  from cnt(2) al show nle: "n \<le> length (content fin) - nat strip" by simp
  then show lenX: "length X = n" by (simp add: X_def)
  show "4 dvd n" by (rule cnt(1))
  show "ending fin2 = ending fin" by (rule e2)
  show "content fin2 = drop n (drop (nat strip) (content fin))"
    by (simp add: c2 cnt(2))
  from xbit2bin_header_ok [OF hr an ok, folded n_def, folded X_def]
  obtain hdr where hd: "xbit2bin_header e fin = Some (sw, hdr, n, fin2)"
    and tk: "take n hdr = (if sw then rev_words X else X)"
    by blast
  from tk lenX have ltk: "length (take n hdr) = n" by (simp del: length_take)
  from nle room have "n \<le> room fout" by simp
  from xbit2bin_after_header [OF hd ltk this, of datbuf] show "xbit2bin e fin fout datbuf
         = xbit2bin_copy e sw fin2
             (fout\<lparr>written := written fout @ (if sw then rev_words X else X),
                   room := room fout - n\<rparr>) datbuf"
    by (simp only: tk)
qed

lemma header_reads_length:
  assumes "header_reads fin k = Some fin2"
  shows "MAXHDR \<le> length (content fin)"
proof -
  from assms have "MAXHDR + k \<le> length (content fin)" by (rule header_reads_Some)
  then show ?thesis by simp
qed

lemma xbit2bin_noswap_run:
  assumes hr: "header_reads fin (nat strip mod 4) = Some fin2"
    and an: "analyze_xilinx_header e (take MAXHDR (content fin)) = (strip, False)"
    and ok: "strip \<noteq> - 1"
    and eof: "ending fin = Eof"
    and room: "length (content fin) - nat strip \<le> room fout"
  shows "xbit2bin e fin fout datbuf
         = (0, fout\<lparr>written := written fout @ drop (nat strip) (content fin),
                     room := room fout - (length (content fin) - nat strip)\<rparr>)"
proof -
  define n where "n = MAXHDR - nat strip + nat strip mod 4"
  define X where "X = take n (drop (nat strip) (content fin))"
  define rest where "rest = drop n (drop (nat strip) (content fin))"
  let ?fout1 = "fout\<lparr>written := written fout @ X, room := room fout - n\<rparr>"
  from header_reads_length [OF hr] have "length (take MAXHDR (content fin)) = MAXHDR" by simp
  from analyze_result [OF this an ok] have ok': "0 \<le> strip" .
  note pre = xbit2bin_to_copy [OF hr an ok' room, folded n_def, folded X_def, folded rest_def]
  have split: "drop (nat strip) (content fin) = X @ rest"
    by (simp only: X_def rest_def append_take_drop_id)
  then have "length (content fin) - nat strip = length X + length rest"
    by (metis length_append length_drop)
  with pre(2) have lens: "length (content fin) - nat strip = n + length rest"
    by simp
  have "xbit2bin e fin fout datbuf = xbit2bin_copy e False fin2 ?fout1 datbuf"
    using pre(1) [of datbuf] by simp
  also have "\<dots> = (0, ?fout1\<lparr>written := written ?fout1 @ content fin2,
                             room := room ?fout1 - length (content fin2)\<rparr>)"
    using eof room lens pre(5,6) by (intro copy_noswap) simp_all
  also have "\<dots> = (0, fout\<lparr>written := written fout @ drop (nat strip) (content fin),
                     room := room fout - (length (content fin) - nat strip)\<rparr>)"
    by (simp add: split lens pre(5))
  finally show ?thesis .
qed

lemma xbit2bin_swap_run:
  assumes hr: "header_reads fin (nat strip mod 4) = Some fin2"
    and wr: "word_reads fin2"
    and an: "analyze_xilinx_header e (take MAXHDR (content fin)) = (strip, True)"
    and ok: "strip \<noteq> - 1"
    and eof: "ending fin = Eof"
    and room: "length (content fin) - nat strip \<le> room fout"
    and buf: "length datbuf = DATBUF_SIZE"
  shows "\<exists>W. xbit2bin e fin fout datbuf
           = (0, fout\<lparr>written := written fout @ W,
                       room := room fout - (length (content fin) - nat strip)\<rparr>)
         \<and> length W = length (content fin) - nat strip
         \<and> take (4 * ((length (content fin) - nat strip) div 4)) W
           = rev_words (take (4 * ((length (content fin) - nat strip) div 4))
                          (drop (nat strip) (content fin)))"
proof -
  define n where "n = MAXHDR - nat strip + nat strip mod 4"
  define X where "X = take n (drop (nat strip) (content fin))"
  define rest where "rest = drop n (drop (nat strip) (content fin))"
  let ?fout1 = "fout\<lparr>written := written fout @ rev_words X, room := room fout - n\<rparr>"
  from header_reads_length [OF hr] have "length (take MAXHDR (content fin)) = MAXHDR" by simp
  from analyze_result [OF this an ok] have ok': "0 \<le> strip" .
  note pre = xbit2bin_to_copy [OF hr an ok' room, folded n_def, folded X_def, folded rest_def]
  have split: "drop (nat strip) (content fin) = X @ rest"
    by (simp only: X_def rest_def append_take_drop_id)
  then have "length (content fin) - nat strip = length X + length rest"
    by (metis length_append length_drop)
  with pre(2) have lens: "length (content fin) - nat strip = n + length rest"
    by simp
  have start: "xbit2bin e fin fout datbuf = xbit2bin_copy e True fin2 ?fout1 datbuf"
    using pre(1) [of datbuf] by simp
  have "\<exists>W. xbit2bin_copy e True fin2 ?fout1 datbuf
         = (0, ?fout1\<lparr>written := written ?fout1 @ W, room := room ?fout1 - length (content fin2)\<rparr>)
       \<and> length W = length (content fin2)
       \<and> take (4 * (length (content fin2) div 4)) W
         = rev_words (take (4 * (length (content fin2) div 4)) (content fin2))"
    using eof room lens buf wr pre(5,6) by (intro copy_swap) simp_all
  then obtain W' where run: "xbit2bin_copy e True fin2 ?fout1 datbuf
         = (0, ?fout1\<lparr>written := written ?fout1 @ W', room := room ?fout1 - length rest\<rparr>)"
    and lenW': "length W' = length rest"
    and tkW': "take (4 * (length rest div 4)) W' = rev_words (take (4 * (length rest div 4)) rest)"
    unfolding pre(5) by auto
  have "?fout1\<lparr>written := written ?fout1 @ W', room := room ?fout1 - length rest\<rparr>
        = fout\<lparr>written := written fout @ (rev_words X @ W'),
               room := room fout - (length (content fin) - nat strip)\<rparr>"
    by (simp add: lens)
  with start run have res: "xbit2bin e fin fout datbuf
        = (0, fout\<lparr>written := written fout @ (rev_words X @ W'),
                    room := room fout - (length (content fin) - nat strip)\<rparr>)"
    by (simp only:)
  have lenW: "length (rev_words X @ W') = length (content fin) - nat strip"
    using pre(2) lenW' lens by simp
  from pre(2,3) have dvd: "4 dvd length X" by simp
  have "take (4 * (length (X @ rest) div 4)) (rev_words X @ W')
        = rev_words (take (4 * (length (X @ rest) div 4)) (X @ rest))"
    by (rule words_combine [OF dvd lenW' tkW'])
  moreover have "length (X @ rest) = length (content fin) - nat strip"
    using pre(2) lens by simp
  ultimately have "take (4 * ((length (content fin) - nat strip) div 4)) (rev_words X @ W')
        = rev_words (take (4 * ((length (content fin) - nat strip) div 4)) (drop (nat strip) (content fin)))"
    by (simp only: split)
  with res lenW show ?thesis by blast
qed

lemma xbit2bin_align_failure:
  assumes "analyze_xilinx_header e (take MAXHDR (content fin)) = (strip, sw)"
    and "0 \<le> strip"
    and "length (content fin) < MAXHDR + nat strip mod 4"
  shows "xbit2bin e fin fout datbuf = (- 1, fout)"
  using xbit2bin_header_align_fail [OF assms] by (simp add: xbit2bin_def)

text \<open>
  A regular file is delivered as one piece: every read returns the count asked for while
  that many bytes remain, so the reads before the copy loop return in full and every read
  of the copy loop but the last returns \<open>DATBUF_SIZE\<close> bytes.
\<close>

lemma sys_read_regular:
  assumes "pending fin = [P]" and "0 < cnt" and "P \<noteq> []"
  shows "sys_read fin cnt = (int (length (take cnt P)), take cnt P, fin\<lparr>pending := [drop cnt P]\<rparr>)"
  using assms by (simp add: sys_read_def)

lemma word_reads_regular:
  "pending fin = [P] \<Longrightarrow> word_reads fin"
proof (induction "length P" arbitrary: fin P rule: less_induct)
  case less
  show ?case
  proof (cases "P = []")
    case True
    with less.prems have "sys_read fin DATBUF_SIZE = (if ending fin = IOError then - 1 else 0, [], fin)"
      by (simp add: sys_read_def)
    then show ?thesis
      by (subst word_reads.simps) simp
  next
    case False
    let ?fin1 = "fin\<lparr>pending := [drop DATBUF_SIZE P]\<rparr>"
    have pos: "0 < DATBUF_SIZE" by (simp add: DATBUF_SIZE_def)
    note rd = sys_read_regular [OF less.prems pos False]
    have c1: "content ?fin1 = drop DATBUF_SIZE P" by (simp add: content_def)
    show ?thesis
    proof (cases "drop DATBUF_SIZE P = []")
      case True
      with rd c1 show ?thesis
        by (subst word_reads.simps) simp
    next
      case nonempty: False
      then have "length (take DATBUF_SIZE P) = DATBUF_SIZE" by simp
      then have dvd: "4 dvd length (take DATBUF_SIZE P)"
        by (simp only: datbuf_words) simp
      have "word_reads ?fin1"
        using nonempty pos by (intro less.hyps [of "drop DATBUF_SIZE P"]) simp_all
      with rd dvd show ?thesis
        by (subst word_reads.simps) (simp del: length_take)
    qed
  qed
qed

lemma header_reads_regular:
  assumes "pending fin = [P]" and "MAXHDR + k \<le> length P"
  shows "header_reads fin k = Some (fin\<lparr>pending := [drop (MAXHDR + k) P]\<rparr>)"
proof -
  have pos: "0 < MAXHDR" by (simp add: MAXHDR_def)
  from assms(2) have ne: "P \<noteq> []" using pos by auto
  note rd = sys_read_regular [OF assms(1) pos ne]
  let ?fin1 = "fin\<lparr>pending := [drop MAXHDR P]\<rparr>"
  show ?thesis
  proof (cases "k = 0")
    case True
    with rd assms(2) show ?thesis by (simp add: header_reads_def)
  next
    case False
    with assms(2) have ne1: "drop MAXHDR P \<noteq> []" by simp
    have "pending ?fin1 = [drop MAXHDR P]" by simp
    from sys_read_regular [OF this _ ne1, of k] False
    have "sys_read ?fin1 k = (int (length (take k (drop MAXHDR P))), take k (drop MAXHDR P),
            fin\<lparr>pending := [drop k (drop MAXHDR P)]\<rparr>)"
      by simp
    with rd assms(2) False show ?thesis
      by (simp add: header_reads_def add.commute)
  qed
qed

section \<open>Concrete values\<close>

lemma noswap_bytes: "words_mem LittleEndian buswords_noswap = [0xbb, 0, 0, 0, 0x44, 0, 0x22, 0x11]"
  by (simp add: words_mem_noswap)

lemma swap_bytes: "words_mem LittleEndian buswords_swap = [0, 0, 0, 0xbb, 0x11, 0x22, 0, 0x44]"
  by (simp add: words_mem_swap)

lemma no_dummy_run_count:
  assumes "length (filter (\<lambda>b. b = 0xff) xs) < 32"
  shows "\<not> has_dummy_run xs"
proof
  let ?P = "\<lambda>b :: byte. b = 0xff"
  assume "has_dummy_run xs"
  then obtain j where "32 \<le> dummies_before xs j"
    by (auto simp: has_dummy_run_def)
  also have "dummies_before xs j = length (filter ?P (takeWhile ?P (rev (take j xs))))"
  proof -
    have "filter ?P (takeWhile ?P (rev (take j xs))) = takeWhile ?P (rev (take j xs))"
      by (rule filter_True) (auto dest: set_takeWhileD)
    then show ?thesis by (simp only: dummies_before_def)
  qed
  also have "\<dots> \<le> length (filter ?P (takeWhile ?P (rev (take j xs))) @ filter ?P (dropWhile ?P (rev (take j xs))))"
    by simp
  also have "\<dots> = length (filter ?P (rev (take j xs)))"
    by (simp only: filter_append [symmetric] takeWhile_dropWhile_id)
  also have "\<dots> = length (filter ?P (take j xs))"
    by (simp add: rev_filter [symmetric])
  also have "\<dots> \<le> length (filter ?P (take j xs) @ filter ?P (drop j xs))"
    by simp
  also have "\<dots> = length (filter ?P xs)"
    by (simp only: filter_append [symmetric] append_take_drop_id)
  finally show False using assms by simp
qed

text \<open>
  One pass of the copy loop with the swap, on a buffer given as a short prefix and the
  rest: only the prefix changes.
\<close>

lemma bswap_chunk_prefix:
  assumes le: "length bs \<le> length pre" and dvd: "4 dvd length pre"
    and P: "P = bs @ drop (length bs) pre" and m: "m = 4 * ((length bs + 3) div 4)"
  shows "xbit2bin_bswap e (buf_store (pre @ rest) 0 bs) (length bs)
         = (rev_words (take m P) @ drop m P) @ rest"
    and "m \<le> length P" and "length P = length pre"
proof -
  from dvd obtain K where K: "length pre = 4 * K" ..
  show lenP: "length P = length pre" using le by (simp add: P)
  from le K have "m \<le> 4 * K" unfolding m by (intro round_up_le) simp
  with K lenP show mP: "m \<le> length P" by simp
  have B: "buf_store (pre @ rest) 0 bs = P @ rest"
    using le by (simp add: buf_store_def P)
  from mP have "4 * ((length bs + 3) div 4) \<le> length (P @ rest)"
    by (simp add: m)
  from xbit2bin_bswap_eq [OF this, of e, folded m] mP
  show "xbit2bin_bswap e (buf_store (pre @ rest) 0 bs) (length bs)
         = (rev_words (take m P) @ drop m P) @ rest"
    by (simp add: B)
qed

lemma copy_swap_chunk:
  assumes rd: "sys_read fin DATBUF_SIZE = (int c, bs, fin1)" and c: "c = length bs"
    and ne: "0 < c"
    and le: "c \<le> length pre" and dvd: "4 dvd length pre"
    and room: "c \<le> room fout"
    and P: "P = bs @ drop c pre" and m: "m = 4 * ((c + 3) div 4)"
  shows "xbit2bin_copy e True fin fout (pre @ rest)
         = xbit2bin_copy e True fin1
             (fout\<lparr>written := written fout @ take c (rev_words (take m P)),
                   room := room fout - c\<rparr>)
             ((rev_words (take m P) @ drop m P) @ rest)"
proof -
  note chunk = bswap_chunk_prefix(1) [OF le [unfolded c] dvd P [unfolded c] m [unfolded c],
      where e = e and rest = rest]
    bswap_chunk_prefix(2) [OF le [unfolded c] dvd P [unfolded c] m [unfolded c]]
  define D where "D = (rev_words (take m P) @ drop m P) @ rest"
  define V where "V = take (length bs) (rev_words (take m P))"
  have cm: "length bs \<le> m" unfolding m c by (rule round_up_ge)
  with chunk(2) have lenV: "length V = length bs"
    by (simp add: V_def)
  have VD: "V = take (length bs) D"
    using cm chunk(2) by (simp add: V_def D_def)
  from ne c have ne': "bs \<noteq> []" by auto
  have "xbit2bin_copy e True fin fout (pre @ rest)
        = xbit2bin_copy e True fin1
            (fout\<lparr>written := written fout @ V, room := room fout - length V\<rparr>) D"
  proof (rule copy_step [OF rd [unfolded c] ne'])
    show "D = (if True then xbit2bin_bswap e (buf_store (pre @ rest) 0 bs) (length bs)
               else buf_store (pre @ rest) 0 bs)"
      by (simp only: if_True chunk(1) D_def)
    show "V = take (length bs) D" by (rule VD)
    show "length V = length bs" by (rule lenV)
    show "length V \<le> room fout" using room lenV c by simp
  qed
  then show ?thesis
    by (simp only: lenV) (simp only: V_def D_def c)
qed

lemma dvd_eight: "4 dvd Suc (Suc (Suc (Suc (Suc (Suc (Suc (Suc 0)))))))"
proof -
  have "Suc (Suc (Suc (Suc (Suc (Suc (Suc (Suc 0))))))) = 4 * 2" by simp
  then show ?thesis by (simp only: dvd_triv_left)
qed

lemma dvd_four: "4 dvd Suc (Suc (Suc (Suc 0)))"
proof -
  have "Suc (Suc (Suc (Suc 0))) = 4 * 1" by simp
  then show ?thesis by (simp only: dvd_triv_left)
qed

lemma datbuf_prefix:
  "replicate DATBUF_SIZE x = [x, x, x, x, x, x, x, x] @ replicate (DATBUF_SIZE - 8) x"
proof -
  have "replicate DATBUF_SIZE x = replicate 8 x @ replicate (DATBUF_SIZE - 8) x"
    by (simp add: DATBUF_SIZE_def replicate_add [symmetric])
  also have "replicate 8 x = [x, x, x, x, x, x, x, x]"
    by (simp add: numeral_eq_Suc)
  finally show ?thesis .
qed

text \<open>
  Two runs of the copy loop with the swap, on a buffer filled with \<open>0xAA\<close>: a read of
  five bytes and then the end of the input, and a read of five bytes followed by a read
  of three.
\<close>

lemma tail_body_example:
  assumes "5 \<le> r"
  shows "xbit2bin_copy LittleEndian True \<lparr>pending = [[1, 2, 3, 4, 5]], ending = Eof\<rparr>
     \<lparr>written = ws, room = r\<rparr> (replicate DATBUF_SIZE 0xAA)
   = (0, \<lparr>written = ws @ [4, 3, 2, 1, 0xAA], room = r - 5\<rparr>)"
proof -
  let ?fin = "\<lparr>pending = [[1, 2, 3, 4, 5 :: byte]], ending = Eof\<rparr>"
  let ?fin1 = "\<lparr>pending = [[] :: byte list], ending = Eof\<rparr>"
  let ?rest = "replicate (DATBUF_SIZE - 8) (0xAA :: byte)"
  have rd: "sys_read ?fin DATBUF_SIZE = (int 5, [1, 2, 3, 4, 5], ?fin1)"
    by (simp add: sys_read_def DATBUF_SIZE_def)
  have "xbit2bin_copy LittleEndian True ?fin \<lparr>written = ws, room = r\<rparr>
          ([0xAA, 0xAA, 0xAA, 0xAA, 0xAA, 0xAA, 0xAA, 0xAA] @ ?rest)
        = xbit2bin_copy LittleEndian True ?fin1
            \<lparr>written = ws @ [4, 3, 2, 1, 0xAA], room = r - 5\<rparr>
            ([4, 3, 2, 1, 0xAA, 0xAA, 0xAA, 5] @ ?rest)"
    using assms
    by (subst copy_swap_chunk [OF rd, where pre = "[0xAA, 0xAA, 0xAA, 0xAA, 0xAA, 0xAA, 0xAA, 0xAA]"
          and P = "[1, 2, 3, 4, 5, 0xAA, 0xAA, 0xAA]" and m = 8])
       (simp_all add: dvd_eight)
  also have "\<dots> = (0, \<lparr>written = ws @ [4, 3, 2, 1, 0xAA], room = r - 5\<rparr>)"
    by (rule copy_eof) (simp_all add: content_def)
  finally show ?thesis
    by (simp only: datbuf_prefix [symmetric])
qed

lemma pipe_body_example:
  assumes "8 \<le> r"
  shows "xbit2bin_copy LittleEndian True \<lparr>pending = [[], [1, 2, 3, 4, 5], [6, 7, 8]], ending = Eof\<rparr>
     \<lparr>written = ws, room = r\<rparr> (replicate DATBUF_SIZE 0xAA)
   = (0, \<lparr>written = ws @ [4, 3, 2, 1, 0xAA, 1, 8, 7], room = r - 8\<rparr>)"
proof -
  let ?fin = "\<lparr>pending = [[], [1, 2, 3, 4, 5 :: byte], [6, 7, 8]], ending = Eof\<rparr>"
  let ?fin1 = "\<lparr>pending = [[], [6, 7, 8 :: byte]], ending = Eof\<rparr>"
  let ?fin2 = "\<lparr>pending = [[] :: byte list], ending = Eof\<rparr>"
  let ?rest = "replicate (DATBUF_SIZE - 8) (0xAA :: byte)"
  have rd: "sys_read ?fin DATBUF_SIZE = (int 5, [1, 2, 3, 4, 5], ?fin1)"
    by (simp add: sys_read_def DATBUF_SIZE_def)
  have rd1: "sys_read ?fin1 DATBUF_SIZE = (int 3, [6, 7, 8], ?fin2)"
    by (simp add: sys_read_def DATBUF_SIZE_def)
  have "xbit2bin_copy LittleEndian True ?fin \<lparr>written = ws, room = r\<rparr>
          ([0xAA, 0xAA, 0xAA, 0xAA, 0xAA, 0xAA, 0xAA, 0xAA] @ ?rest)
        = xbit2bin_copy LittleEndian True ?fin1
            \<lparr>written = ws @ [4, 3, 2, 1, 0xAA], room = r - 5\<rparr>
            ([4, 3, 2, 1, 0xAA, 0xAA, 0xAA, 5] @ ?rest)"
    using assms
    by (subst copy_swap_chunk [OF rd, where pre = "[0xAA, 0xAA, 0xAA, 0xAA, 0xAA, 0xAA, 0xAA, 0xAA]"
          and P = "[1, 2, 3, 4, 5, 0xAA, 0xAA, 0xAA]" and m = 8])
       (simp_all add: dvd_eight)
  also have "\<dots> = xbit2bin_copy LittleEndian True ?fin2
            \<lparr>written = ws @ [4, 3, 2, 1, 0xAA, 1, 8, 7], room = r - 8\<rparr>
            ([1, 8, 7, 6, 0xAA, 0xAA, 0xAA, 5] @ ?rest)"
    using assms
    by (subst copy_swap_chunk [OF rd1, where pre = "[4, 3, 2, 1, 0xAA, 0xAA, 0xAA, 5]"
          and P = "[6, 7, 8, 1, 0xAA, 0xAA, 0xAA, 5]" and m = 4])
       (simp_all add: dvd_eight)
  also have "\<dots> = (0, \<lparr>written = ws @ [4, 3, 2, 1, 0xAA, 1, 8, 7], room = r - 8\<rparr>)"
    by (rule copy_eof) (simp_all add: content_def)
  finally show ?thesis
    by (simp only: datbuf_prefix [symmetric])
qed

section \<open>The claims\<close>

subsection \<open>C1: an input with the no-swap marker\<close>

text \<open>
  Claim C1, as amended. Let the read of the 256 header bytes return 256 bytes, let the
  analysis of these bytes succeed with offset \<open>strip\<close> on the no-swap marker, let the
  read of the \<open>strip mod 4\<close> bytes that bring the header count to a multiple of four
  return that many bytes (\<open>header_reads\<close> says both: a read that returns fewer bytes than
  were asked for, as a pipe may do, is not repeated), let the input end without a read
  error and let the output accept every byte. Then the transcoder returns 0 and has written
  the input from offset \<open>strip\<close> to its end, with no byte changed, however the reads of
  the copy loop cut the rest of the input; the 32 bytes at that offset are padding bytes
  and the no-swap marker follows them.
\<close>

theorem xbit2bin_noswap_output:
  assumes hr: "header_reads fin (nat strip mod 4) = Some fin2"
    and an: "analyze_xilinx_header e (take MAXHDR (content fin)) = (strip, False)"
    and ok: "strip \<noteq> - 1"
    and eof: "ending fin = Eof"
    and room: "length (content fin) - nat strip \<le> room fout"
  shows "xbit2bin e fin fout datbuf
         = (0, fout\<lparr>written := written fout @ drop (nat strip) (content fin),
                     room := room fout - (length (content fin) - nat strip)\<rparr>)
       \<and> take 32 (drop (nat strip) (content fin)) = replicate 32 0xff
       \<and> take 8 (drop (nat strip + 32) (content fin)) = words_mem e buswords_noswap"
  using xbit2bin_noswap_run [OF assms] analyze_input_run [OF header_reads_length [OF hr] an ok] by simp

theorem xbit2bin_noswap_output_witness:
  "xbit2bin LittleEndian
     \<lparr>pending = [replicate 41 0x41 @ replicate 32 0xff @ words_mem LittleEndian buswords_noswap
                  @ replicate 175 0 @ [1, 2], [3], [4, 5]], ending = Eof\<rparr>
     \<lparr>written = [], room = 1000\<rparr> (replicate DATBUF_SIZE 0)
   = (0, \<lparr>written = replicate 32 0xff @ words_mem LittleEndian buswords_noswap
                      @ replicate 175 0 @ [1, 2, 3, 4, 5], room = 780\<rparr>)"
proof -
  let ?fin = "\<lparr>pending = [replicate 41 0x41 @ replicate 32 0xff @ words_mem LittleEndian buswords_noswap
                  @ replicate 175 0 @ [1, 2 :: byte], [3], [4, 5]], ending = Eof\<rparr>"
  let ?fin2 = "\<lparr>pending = [[2 :: byte], [3], [4, 5]], ending = Eof\<rparr>"
  let ?fout = "\<lparr>written = [], room = 1000\<rparr>"
  have hr: "header_reads ?fin (nat 41 mod 4) = Some ?fin2"
    by (simp add: header_reads_def sys_read_def MAXHDR_def)
  have an: "analyze_xilinx_header LittleEndian (take MAXHDR (content ?fin)) = (41, False)"
    by code_simp
  have room: "length (content ?fin) - nat 41 \<le> room ?fout"
    by (simp add: content_def)
  have ok: "(41 :: int) \<noteq> - 1" and eof: "ending ?fin = Eof"
    by simp_all
  from xbit2bin_noswap_output [OF hr an ok eof room, of "replicate DATBUF_SIZE 0"]
  show ?thesis by (simp add: content_def)
qed

text \<open>
  Claim C1 as it is stated fails on three inputs whose header holds 32 padding bytes
  followed by the no-swap marker. The first has exactly 256 bytes and the offset 1: the
  read of the one byte that would bring 255 to 256 returns nothing and the transcoder
  returns -1. In the second an earlier run of 32 padding bytes is followed by a zero byte:
  the scan stops there, finds no marker, and the transcoder returns -1. The third has the
  offset 0 and four bytes after the header, and comes in two pieces of 100 and of 160
  bytes, as from a pipe: the read of the header returns 100 bytes and the transcoder
  returns -1.
\<close>

theorem xbit2bin_noswap_counterexample:
  "xbit2bin LittleEndian
     \<lparr>pending = [[0x41] @ replicate 32 0xff @ words_mem LittleEndian buswords_noswap
                  @ replicate 215 0], ending = Eof\<rparr>
     \<lparr>written = [], room = 1000\<rparr> (replicate DATBUF_SIZE 0)
   = (- 1, \<lparr>written = [], room = 1000\<rparr>)
   \<and> xbit2bin LittleEndian
     \<lparr>pending = [replicate 32 0xff @ [0] @ replicate 32 0xff @ words_mem LittleEndian buswords_noswap
                  @ replicate 183 0 @ [1, 2, 3, 4]], ending = Eof\<rparr>
     \<lparr>written = [], room = 1000\<rparr> (replicate DATBUF_SIZE 0)
   = (- 1, \<lparr>written = [], room = 1000\<rparr>)
   \<and> analyze_xilinx_header LittleEndian
       (take MAXHDR (replicate 32 0xff @ words_mem LittleEndian buswords_noswap @ replicate 60 0
                     @ replicate 156 0 @ [1, 2, 3, 4]))
     = (0, False)
   \<and> xbit2bin LittleEndian
     \<lparr>pending = [replicate 32 0xff @ words_mem LittleEndian buswords_noswap @ replicate 60 0,
                 replicate 156 0 @ [1, 2, 3, 4]], ending = Eof\<rparr>
     \<lparr>written = [], room = 1000\<rparr> (replicate DATBUF_SIZE 0)
   = (- 1, \<lparr>written = [], room = 1000\<rparr>)"
proof (intro conjI)
  let ?P = "[0x41] @ replicate 32 0xff @ words_mem LittleEndian buswords_noswap @ replicate 215 (0 :: byte)"
  let ?fin = "\<lparr>pending = [?P], ending = Eof\<rparr>"
  have "analyze_xilinx_header LittleEndian (take MAXHDR ?P) = (1, False)"
    by code_simp
  then have an: "analyze_xilinx_header LittleEndian (take MAXHDR (content ?fin)) = (1, False)"
    by (simp add: content_def)
  have short: "length (content ?fin) < MAXHDR + nat 1 mod 4"
    by (simp add: MAXHDR_def content_def)
  from xbit2bin_align_failure [OF an _ short]
  show "xbit2bin LittleEndian ?fin \<lparr>written = [], room = 1000\<rparr> (replicate DATBUF_SIZE 0)
        = (- 1, \<lparr>written = [], room = 1000\<rparr>)"
    by simp
next
  let ?Q = "replicate 32 0xff @ [0] @ replicate 32 0xff @ words_mem LittleEndian buswords_noswap
            @ replicate 183 0 @ [1, 2, 3, 4 :: byte]"
  let ?fin = "\<lparr>pending = [?Q], ending = Eof\<rparr>"
  have "analyze_xilinx_header LittleEndian (take MAXHDR ?Q) = (- 1, False)"
    by code_simp
  then have "fst (analyze_xilinx_header LittleEndian (take MAXHDR (content ?fin))) < 0"
    by (simp add: content_def)
  then have "xbit2bin_header LittleEndian ?fin = None"
    by (rule xbit2bin_header_bad)
  then show "xbit2bin LittleEndian ?fin \<lparr>written = [], room = 1000\<rparr> (replicate DATBUF_SIZE 0)
        = (- 1, \<lparr>written = [], room = 1000\<rparr>)"
    by (simp add: xbit2bin_def)
next
  show "analyze_xilinx_header LittleEndian
       (take MAXHDR (replicate 32 0xff @ words_mem LittleEndian buswords_noswap @ replicate 60 0
                     @ replicate 156 0 @ [1, 2, 3, 4]))
     = (0, False)"
    by code_simp
next
  let ?fin = "\<lparr>pending = [replicate 32 0xff @ words_mem LittleEndian buswords_noswap @ replicate 60 0,
                 replicate 156 0 @ [1, 2, 3, 4 :: byte]], ending = Eof\<rparr>"
  have "fst (sys_read ?fin MAXHDR) = 100"
    by (simp add: sys_read_def MAXHDR_def)
  then have "fst (sys_read ?fin MAXHDR) \<noteq> int MAXHDR"
    by (simp add: MAXHDR_def)
  then have "xbit2bin_header LittleEndian ?fin = None"
    by (rule xbit2bin_header_short)
  then show "xbit2bin LittleEndian ?fin \<lparr>written = [], room = 1000\<rparr> (replicate DATBUF_SIZE 0)
        = (- 1, \<lparr>written = [], room = 1000\<rparr>)"
    by (simp add: xbit2bin_def)
qed

subsection \<open>C2: an input with the swap marker\<close>

text \<open>
  Claim C2, as amended. Under the conditions of C1, with the swap marker in place of the
  no-swap marker, let every read of the copy loop but the one that takes the last bytes
  of the input return a multiple of four bytes (\<open>word_reads\<close>), and let \<^verbatim>\<open>datbuf\<close>
  have its \<open>DATBUF_SIZE\<close> bytes. Then the transcoder returns 0 and has written as many
  bytes as the input holds from offset \<open>strip\<close> on; every complete 32-bit word of that
  part of the input, counted from offset \<open>strip\<close>, appears in the output with its four
  bytes reversed; the 32 bytes of the input at that offset are padding bytes and the swap
  marker follows them. Nothing is said about one to three bytes after the last complete
  word.
\<close>

theorem xbit2bin_swap_output:
  assumes hr: "header_reads fin (nat strip mod 4) = Some fin2"
    and wr: "word_reads fin2"
    and an: "analyze_xilinx_header e (take MAXHDR (content fin)) = (strip, True)"
    and ok: "strip \<noteq> - 1"
    and eof: "ending fin = Eof"
    and room: "length (content fin) - nat strip \<le> room fout"
    and buf: "length datbuf = DATBUF_SIZE"
  shows "(\<exists>W. xbit2bin e fin fout datbuf
           = (0, fout\<lparr>written := written fout @ W,
                       room := room fout - (length (content fin) - nat strip)\<rparr>)
         \<and> length W = length (content fin) - nat strip
         \<and> take (4 * ((length (content fin) - nat strip) div 4)) W
           = rev_words (take (4 * ((length (content fin) - nat strip) div 4))
                          (drop (nat strip) (content fin))))
       \<and> take 32 (drop (nat strip) (content fin)) = replicate 32 0xff
       \<and> take 8 (drop (nat strip + 32) (content fin)) = words_mem e buswords_swap"
  using xbit2bin_swap_run [OF assms] analyze_input_run [OF header_reads_length [OF hr] an ok] by simp

theorem xbit2bin_swap_output_witness:
  "\<exists>W. xbit2bin LittleEndian
     \<lparr>pending = [replicate 40 0x41 @ replicate 32 0xff @ words_mem LittleEndian buswords_swap
                  @ replicate 176 0 @ [1, 2, 3, 4], [5, 6, 7, 8]], ending = Eof\<rparr>
     \<lparr>written = [], room = 1000\<rparr> (replicate DATBUF_SIZE 0)
   = (0, \<lparr>written = W, room = 776\<rparr>)
   \<and> length W = 224
   \<and> W = rev_words (replicate 32 0xff @ words_mem LittleEndian buswords_swap
                     @ replicate 176 0 @ [1, 2, 3, 4, 5, 6, 7, 8])"
proof -
  let ?fin = "\<lparr>pending = [replicate 40 0x41 @ replicate 32 0xff @ words_mem LittleEndian buswords_swap
                  @ replicate 176 0 @ [1, 2, 3, 4 :: byte], [5, 6, 7, 8]], ending = Eof\<rparr>"
  let ?fin2 = "\<lparr>pending = [[1, 2, 3, 4 :: byte], [5, 6, 7, 8]], ending = Eof\<rparr>"
  let ?fout = "\<lparr>written = [], room = 1000\<rparr>"
  have hr: "header_reads ?fin (nat 40 mod 4) = Some ?fin2"
    by (simp add: header_reads_def sys_read_def MAXHDR_def)
  have r1: "sys_read ?fin2 DATBUF_SIZE
      = (4, [1, 2, 3, 4], \<lparr>pending = [[], [5, 6, 7, 8]], ending = Eof\<rparr>)"
    by (simp add: sys_read_def DATBUF_SIZE_def)
  have r2: "sys_read \<lparr>pending = [[], [5, 6, 7, 8 :: byte]], ending = Eof\<rparr> DATBUF_SIZE
      = (4, [5, 6, 7, 8], \<lparr>pending = [[]], ending = Eof\<rparr>)"
    by (simp add: sys_read_def DATBUF_SIZE_def)
  have "word_reads \<lparr>pending = [[], [5, 6, 7, 8 :: byte]], ending = Eof\<rparr>"
    by (subst word_reads.simps) (simp add: r2 content_def)
  then have wr: "word_reads ?fin2"
    by (subst word_reads.simps) (simp add: r1 content_def dvd_four)
  have an: "analyze_xilinx_header LittleEndian (take MAXHDR (content ?fin)) = (40, True)"
    by code_simp
  have room: "length (content ?fin) - nat 40 \<le> room ?fout"
    by (simp add: content_def)
  have ok: "(40 :: int) \<noteq> - 1" and eof: "ending ?fin = Eof"
    and buf: "length (replicate DATBUF_SIZE (0 :: byte)) = DATBUF_SIZE"
    by simp_all
  from xbit2bin_swap_output [OF hr wr an ok eof room buf, THEN conjunct1]
  obtain W where run: "xbit2bin LittleEndian ?fin ?fout (replicate DATBUF_SIZE 0)
           = (0, ?fout\<lparr>written := written ?fout @ W,
                       room := room ?fout - (length (content ?fin) - nat 40)\<rparr>)"
    and lenW: "length W = length (content ?fin) - nat 40"
    and tk: "take (4 * ((length (content ?fin) - nat 40) div 4)) W
           = rev_words (take (4 * ((length (content ?fin) - nat 40) div 4)) (drop (nat 40) (content ?fin)))"
    by blast
  from lenW have l: "length W = 224" by (simp add: content_def)
  with tk have "W = rev_words (replicate 32 0xff @ words_mem LittleEndian buswords_swap
                     @ replicate 176 0 @ [1, 2, 3, 4, 5, 6, 7, 8])"
    by (simp add: content_def)
  with run l show ?thesis by (simp add: content_def)
qed

text \<open>
  Claim C2 as it is stated fails on a 256-byte input with offset 3, where the transcoder
  returns -1, and on an input of 256 header bytes and five more bytes: the fifth byte
  written is a byte of the buffer \<^verbatim>\<open>datbuf\<close> that the last read did not fill (\<open>0xAA\<close>
  here), not the fifth byte of the input. It fails on complete words too: when the eight
  bytes 1 to 8 after the header come in a piece of five and a piece of three bytes, the
  loop swaps each piece by itself and writes 4, 3, 2, 1, \<open>0xAA\<close>, 1, 8, 7 where the
  claim has 4, 3, 2, 1, 8, 7, 6, 5.
\<close>

theorem xbit2bin_swap_counterexample:
  "xbit2bin LittleEndian
     \<lparr>pending = [[0x41, 0x42, 0x43] @ replicate 32 0xff @ words_mem LittleEndian buswords_swap
                  @ replicate 213 0], ending = Eof\<rparr>
     \<lparr>written = [], room = 1000\<rparr> (replicate DATBUF_SIZE 0xAA)
   = (- 1, \<lparr>written = [], room = 1000\<rparr>)
   \<and> xbit2bin LittleEndian
     \<lparr>pending = [replicate 32 0xff @ words_mem LittleEndian buswords_swap @ replicate 216 0
                  @ [1, 2, 3, 4, 5]], ending = Eof\<rparr>
     \<lparr>written = [], room = 1000\<rparr> (replicate DATBUF_SIZE 0xAA)
   = (0, \<lparr>written = rev_words (replicate 32 0xff @ words_mem LittleEndian buswords_swap
                                  @ replicate 216 0) @ [4, 3, 2, 1, 0xAA],
          room = 739\<rparr>)
   \<and> rev_words (replicate 32 0xff @ words_mem LittleEndian buswords_swap @ replicate 216 0
                @ [1, 2, 3, 4, 5])
     = rev_words (replicate 32 0xff @ words_mem LittleEndian buswords_swap @ replicate 216 0)
       @ [4, 3, 2, 1, 5]
   \<and> xbit2bin LittleEndian
     \<lparr>pending = [replicate 32 0xff @ words_mem LittleEndian buswords_swap @ replicate 216 0,
                 [1, 2, 3, 4, 5], [6, 7, 8]], ending = Eof\<rparr>
     \<lparr>written = [], room = 1000\<rparr> (replicate DATBUF_SIZE 0xAA)
   = (0, \<lparr>written = rev_words (replicate 32 0xff @ words_mem LittleEndian buswords_swap
                                  @ replicate 216 0) @ [4, 3, 2, 1, 0xAA, 1, 8, 7],
          room = 736\<rparr>)
   \<and> rev_words (replicate 32 0xff @ words_mem LittleEndian buswords_swap @ replicate 216 0
                @ [1, 2, 3, 4, 5, 6, 7, 8])
     = rev_words (replicate 32 0xff @ words_mem LittleEndian buswords_swap @ replicate 216 0)
       @ [4, 3, 2, 1, 8, 7, 6, 5]"
proof (intro conjI)
  let ?P = "[0x41, 0x42, 0x43] @ replicate 32 0xff @ words_mem LittleEndian buswords_swap
            @ replicate 213 (0 :: byte)"
  let ?fin = "\<lparr>pending = [?P], ending = Eof\<rparr>"
  have "analyze_xilinx_header LittleEndian (take MAXHDR ?P) = (3, True)"
    by code_simp
  then have an: "analyze_xilinx_header LittleEndian (take MAXHDR (content ?fin)) = (3, True)"
    by (simp add: content_def)
  have short: "length (content ?fin) < MAXHDR + nat 3 mod 4"
    by (simp add: MAXHDR_def content_def)
  from xbit2bin_align_failure [OF an _ short]
  show "xbit2bin LittleEndian ?fin \<lparr>written = [], room = 1000\<rparr> (replicate DATBUF_SIZE 0xAA)
        = (- 1, \<lparr>written = [], room = 1000\<rparr>)"
    by simp
next
  let ?H = "replicate 32 0xff @ words_mem LittleEndian buswords_swap @ replicate 216 (0 :: byte)"
  let ?fin = "\<lparr>pending = [?H @ [1, 2, 3, 4, 5]], ending = Eof\<rparr>"
  let ?fin2 = "\<lparr>pending = [[1, 2, 3, 4, 5 :: byte]], ending = Eof\<rparr>"
  let ?fout = "\<lparr>written = [], room = 1000\<rparr>"
  have "analyze_xilinx_header LittleEndian (take MAXHDR (?H @ [1, 2, 3, 4, 5])) = (0, True)"
    by code_simp
  then have an: "analyze_xilinx_header LittleEndian (take MAXHDR (content ?fin)) = (0, True)"
    by (simp add: content_def)
  have hr: "header_reads ?fin (nat 0 mod 4) = Some ?fin2"
    by (simp add: header_reads_def sys_read_def MAXHDR_def)
  have room: "length (content ?fin) - nat 0 \<le> room ?fout"
    by (simp add: content_def)
  from xbit2bin_to_copy(1) [OF hr an _ room, of "replicate DATBUF_SIZE 0xAA"]
  have "xbit2bin LittleEndian ?fin ?fout (replicate DATBUF_SIZE 0xAA)
        = xbit2bin_copy LittleEndian True ?fin2 \<lparr>written = rev_words ?H, room = 744\<rparr>
            (replicate DATBUF_SIZE 0xAA)"
    by (simp add: MAXHDR_def content_def)
  also have "\<dots> = (0, \<lparr>written = rev_words ?H @ [4, 3, 2, 1, 0xAA], room = 744 - 5\<rparr>)"
    by (rule tail_body_example) simp
  finally show "xbit2bin LittleEndian
     \<lparr>pending = [replicate 32 0xff @ words_mem LittleEndian buswords_swap @ replicate 216 0
                @ [1, 2, 3, 4, 5]], ending = Eof\<rparr>
     \<lparr>written = [], room = 1000\<rparr> (replicate DATBUF_SIZE 0xAA)
   = (0, \<lparr>written = rev_words (replicate 32 0xff @ words_mem LittleEndian buswords_swap
                                  @ replicate 216 0) @ [4, 3, 2, 1, 0xAA],
          room = 739\<rparr>)"
    by simp
next
  have "4 dvd length (replicate 32 0xff @ words_mem LittleEndian buswords_swap @ replicate 216 (0 :: byte))"
    by simp
  then show "rev_words (replicate 32 0xff @ words_mem LittleEndian buswords_swap @ replicate 216 0
                @ [1, 2, 3, 4, 5])
     = rev_words (replicate 32 0xff @ words_mem LittleEndian buswords_swap @ replicate 216 0)
       @ [4, 3, 2, 1, 5]"
    using rev_words_append [of "replicate 32 0xff @ words_mem LittleEndian buswords_swap @ replicate 216 0" "[1, 2, 3, 4, 5]"]
    by simp
next
  let ?H = "replicate 32 0xff @ words_mem LittleEndian buswords_swap @ replicate 216 (0 :: byte)"
  let ?fin = "\<lparr>pending = [?H, [1, 2, 3, 4, 5], [6, 7, 8]], ending = Eof\<rparr>"
  let ?fin2 = "\<lparr>pending = [[], [1, 2, 3, 4, 5 :: byte], [6, 7, 8]], ending = Eof\<rparr>"
  let ?fout = "\<lparr>written = [], room = 1000\<rparr>"
  have "analyze_xilinx_header LittleEndian (take MAXHDR (?H @ [1, 2, 3, 4, 5, 6, 7, 8])) = (0, True)"
    by code_simp
  then have an: "analyze_xilinx_header LittleEndian (take MAXHDR (content ?fin)) = (0, True)"
    by (simp add: content_def)
  have hr: "header_reads ?fin (nat 0 mod 4) = Some ?fin2"
    by (simp add: header_reads_def sys_read_def MAXHDR_def)
  have room: "length (content ?fin) - nat 0 \<le> room ?fout"
    by (simp add: content_def)
  from xbit2bin_to_copy(1) [OF hr an _ room, of "replicate DATBUF_SIZE 0xAA"]
  have "xbit2bin LittleEndian ?fin ?fout (replicate DATBUF_SIZE 0xAA)
        = xbit2bin_copy LittleEndian True ?fin2 \<lparr>written = rev_words ?H, room = 744\<rparr>
            (replicate DATBUF_SIZE 0xAA)"
    by (simp add: MAXHDR_def content_def)
  also have "\<dots> = (0, \<lparr>written = rev_words ?H @ [4, 3, 2, 1, 0xAA, 1, 8, 7], room = 744 - 8\<rparr>)"
    by (rule pipe_body_example) simp
  finally show "xbit2bin LittleEndian
     \<lparr>pending = [replicate 32 0xff @ words_mem LittleEndian buswords_swap @ replicate 216 0,
                 [1, 2, 3, 4, 5], [6, 7, 8]], ending = Eof\<rparr>
     \<lparr>written = [], room = 1000\<rparr> (replicate DATBUF_SIZE 0xAA)
   = (0, \<lparr>written = rev_words (replicate 32 0xff @ words_mem LittleEndian buswords_swap
                                  @ replicate 216 0) @ [4, 3, 2, 1, 0xAA, 1, 8, 7],
          room = 736\<rparr>)"
    by simp
next
  have "4 dvd length (replicate 32 0xff @ words_mem LittleEndian buswords_swap @ replicate 216 (0 :: byte))"
    by simp
  then show "rev_words (replicate 32 0xff @ words_mem LittleEndian buswords_swap @ replicate 216 0
                @ [1, 2, 3, 4, 5, 6, 7, 8])
     = rev_words (replicate 32 0xff @ words_mem LittleEndian buswords_swap @ replicate 216 0)
       @ [4, 3, 2, 1, 8, 7, 6, 5]"
    using rev_words_append [of "replicate 32 0xff @ words_mem LittleEndian buswords_swap @ replicate 216 0" "[1, 2, 3, 4, 5, 6, 7, 8]"]
    by simp
qed

subsection \<open>C3: a chunk whose length is not a multiple of four\<close>

text \<open>
  Claim C3 says that the copy loop reverses only the complete words of a chunk and writes
  the one to three bytes after them as they were read. The loop of \<^verbatim>\<open>xbit2bin_bswap\<close>
  runs while \<open>4 * i < n\<close>, so it also reverses the word that holds the last bytes together
  with bytes of \<^verbatim>\<open>datbuf\<close> beyond the data read. For a read of the five bytes 1 to 5
  into a buffer filled with \<open>0xAA\<close>, the loop writes 4, 3, 2, 1 and then \<open>0xAA\<close>.
\<close>

theorem copy_loop_tail_bytes:
  "xbit2bin_copy LittleEndian True \<lparr>pending = [[1, 2, 3, 4, 5]], ending = Eof\<rparr>
     \<lparr>written = [], room = 5\<rparr> (replicate DATBUF_SIZE 0xAA)
   = (0, \<lparr>written = [4, 3, 2, 1, 0xAA], room = 0\<rparr>)"
  using tail_body_example [of 5 "[]"] by simp

subsection \<open>C4: padding runs of 31 and of 32 bytes\<close>

text \<open>
  Claim C4, as amended. For a 256-byte buffer and a marker \<open>m\<close>: when the buffer is
  \<open>pre\<close>, 31 padding bytes, \<open>m\<close>, \<open>post\<close> and holds no 32 consecutive padding bytes
  anywhere, the analysis fails; when the buffer is \<open>pre\<close>, 32 padding bytes, \<open>m\<close>,
  \<open>post\<close> and \<open>pre\<close> holds no 32 consecutive padding bytes, the analysis succeeds with
  the offset of the marker minus 32, and the flag tells which marker \<open>m\<close> is.
\<close>

theorem analyze_run_boundary:
  assumes len: "length hdr = MAXHDR" and m: "is_marker e m"
  shows "(hdr = pre @ replicate 31 0xff @ m @ post \<and> \<not> has_dummy_run hdr
            \<longrightarrow> analyze_xilinx_header e hdr = (- 1, False))
       \<and> (hdr = pre @ replicate 32 0xff @ m @ post \<and> \<not> has_dummy_run pre
            \<longrightarrow> analyze_xilinx_header e hdr
                = (int (length pre + 32) - 32, m = words_mem e buswords_swap))"
proof (intro conjI impI)
  assume "hdr = pre @ replicate 31 0xff @ m @ post \<and> \<not> has_dummy_run hdr"
  then have "\<not> has_dummy_run hdr" ..
  with len show "analyze_xilinx_header e hdr = (- 1, False)"
    by (rule analyze_no_run)
next
  assume "hdr = pre @ replicate 32 0xff @ m @ post \<and> \<not> has_dummy_run pre"
  then have "hdr = pre @ replicate 32 0xff @ m @ post" and "\<not> has_dummy_run pre"
    by simp_all
  with len show "analyze_xilinx_header e hdr
                = (int (length pre + 32) - 32, m = words_mem e buswords_swap)"
    using m by (intro analyze_run) simp_all
qed

theorem analyze_run_boundary_witness:
  "analyze_xilinx_header LittleEndian
     ([0x41] @ replicate 31 0xff @ words_mem LittleEndian buswords_noswap @ replicate 216 0)
   = (- 1, False)
   \<and> analyze_xilinx_header LittleEndian
     ([0x41] @ replicate 32 0xff @ words_mem LittleEndian buswords_noswap @ replicate 215 0)
   = (1, False)"
proof -
  let ?m = "words_mem LittleEndian buswords_noswap"
  let ?hdrA = "[0x41] @ replicate 31 0xff @ ?m @ replicate 216 (0 :: byte)"
  let ?hdrB = "[0x41] @ replicate 32 0xff @ ?m @ replicate 215 (0 :: byte)"
  have m: "is_marker LittleEndian ?m"
    by (simp add: is_marker_def)
  have lenA: "length ?hdrA = MAXHDR" and lenB: "length ?hdrB = MAXHDR"
    by (simp_all add: MAXHDR_def)
  have noA: "\<not> has_dummy_run ?hdrA"
    by (rule no_dummy_run_count) (simp add: noswap_bytes)
  have noB: "\<not> has_dummy_run [0x41]"
    by (simp add: no_dummy_run_short)
  from analyze_run_boundary [OF lenA m, where pre = "[0x41]" and post = "replicate 216 0"] noA
  have "analyze_xilinx_header LittleEndian ?hdrA = (- 1, False)"
    by blast
  moreover
  from analyze_run_boundary [OF lenB m, where pre = "[0x41]" and post = "replicate 215 0"] noB
  have "analyze_xilinx_header LittleEndian ?hdrB = (1, False)"
    by (simp add: markers_differ [symmetric])
  ultimately show ?thesis by blast
qed

text \<open>
  Without the condition on the rest of the buffer claim C4 fails: a buffer that starts
  with 32 padding bytes and a marker is accepted although a run of exactly 31 padding bytes
  and a marker follow later, and a buffer whose first 32 padding bytes are followed by a
  zero byte is rejected although a run of exactly 32 padding bytes and a marker follow.
\<close>

theorem analyze_run_boundary_counterexample:
  "analyze_xilinx_header LittleEndian
     (replicate 32 0xff @ words_mem LittleEndian buswords_noswap @ [0]
      @ replicate 31 0xff @ words_mem LittleEndian buswords_noswap @ replicate 176 0)
   = (0, False)
   \<and> analyze_xilinx_header LittleEndian
     (replicate 32 0xff @ [0]
      @ replicate 32 0xff @ words_mem LittleEndian buswords_noswap @ replicate 183 0)
   = (- 1, False)"
  by (intro conjI; code_simp)

subsection \<open>C5: failure before anything is written\<close>

text \<open>
  Claim C5. When the read of the header returns fewer than 256 bytes, as it does when
  the input holds fewer than 256 bytes, or the analysis of the first 256 bytes of the
  input fails, the transcoder returns -1 and the output is as it was: no byte has been
  written.
\<close>

theorem xbit2bin_header_failure:
  assumes "fst (sys_read fin MAXHDR) \<noteq> int MAXHDR
           \<or> length (content fin) < MAXHDR
           \<or> fst (analyze_xilinx_header e (take MAXHDR (content fin))) < 0"
  shows "xbit2bin e fin fout datbuf = (- 1, fout)"
proof -
  from assms sys_read_short [of fin MAXHDR]
  have "fst (sys_read fin MAXHDR) \<noteq> int MAXHDR
        \<or> fst (analyze_xilinx_header e (take MAXHDR (content fin))) < 0"
    by blast
  then have "xbit2bin_header e fin = None"
    using xbit2bin_header_short xbit2bin_header_bad by blast
  then show ?thesis by (simp add: xbit2bin_def)
qed

theorem xbit2bin_header_failure_witness:
  "xbit2bin LittleEndian \<lparr>pending = [[1, 2, 3]], ending = Eof\<rparr> \<lparr>written = [], room = 16\<rparr>
     (replicate DATBUF_SIZE 0)
   = (- 1, \<lparr>written = [], room = 16\<rparr>)
   \<and> xbit2bin LittleEndian \<lparr>pending = [replicate 300 0], ending = Eof\<rparr> \<lparr>written = [], room = 16\<rparr>
     (replicate DATBUF_SIZE 0)
   = (- 1, \<lparr>written = [], room = 16\<rparr>)
   \<and> xbit2bin LittleEndian
       \<lparr>pending = [replicate 32 0xff @ [1, 2, 3, 4, 5, 6, 7, 8] @ replicate 260 0], ending = Eof\<rparr>
       \<lparr>written = [], room = 16\<rparr> (replicate DATBUF_SIZE 0)
   = (- 1, \<lparr>written = [], room = 16\<rparr>)
   \<and> xbit2bin LittleEndian
       \<lparr>pending = [replicate 32 0xff @ words_mem LittleEndian buswords_noswap @ replicate 60 0,
                   replicate 156 0 @ [1, 2, 3, 4]], ending = Eof\<rparr>
       \<lparr>written = [], room = 16\<rparr> (replicate DATBUF_SIZE 0)
   = (- 1, \<lparr>written = [], room = 16\<rparr>)"
proof -
  let ?f1 = "\<lparr>pending = [[1, 2, 3 :: byte]], ending = Eof\<rparr>"
  let ?f2 = "\<lparr>pending = [replicate 300 (0 :: byte)], ending = Eof\<rparr>"
  let ?f3 = "\<lparr>pending = [replicate 32 0xff @ [1, 2, 3, 4, 5, 6, 7, 8 :: byte] @ replicate 260 0],
              ending = Eof\<rparr>"
  let ?f4 = "\<lparr>pending = [replicate 32 0xff @ words_mem LittleEndian buswords_noswap @ replicate 60 0,
                   replicate 156 0 @ [1, 2, 3, 4 :: byte]], ending = Eof\<rparr>"
  have h1: "fst (sys_read ?f1 MAXHDR) \<noteq> int MAXHDR
     \<or> length (content ?f1) < MAXHDR
     \<or> fst (analyze_xilinx_header LittleEndian (take MAXHDR (content ?f1))) < 0"
    by (simp add: MAXHDR_def content_def)
  have "analyze_xilinx_header LittleEndian (take MAXHDR (content ?f2)) = (- 1, False)"
    by code_simp
  then have h2: "fst (sys_read ?f2 MAXHDR) \<noteq> int MAXHDR
     \<or> length (content ?f2) < MAXHDR
     \<or> fst (analyze_xilinx_header LittleEndian (take MAXHDR (content ?f2))) < 0"
    by simp
  have "analyze_xilinx_header LittleEndian (take MAXHDR (content ?f3)) = (- 1, False)"
    by code_simp
  then have h3: "fst (sys_read ?f3 MAXHDR) \<noteq> int MAXHDR
     \<or> length (content ?f3) < MAXHDR
     \<or> fst (analyze_xilinx_header LittleEndian (take MAXHDR (content ?f3))) < 0"
    by simp
  have "fst (sys_read ?f4 MAXHDR) = 100"
    by (simp add: sys_read_def MAXHDR_def)
  then have h4: "fst (sys_read ?f4 MAXHDR) \<noteq> int MAXHDR
     \<or> length (content ?f4) < MAXHDR
     \<or> fst (analyze_xilinx_header LittleEndian (take MAXHDR (content ?f4))) < 0"
    by (simp add: MAXHDR_def)
  from xbit2bin_header_failure [OF h1] xbit2bin_header_failure [OF h2]
    xbit2bin_header_failure [OF h3] xbit2bin_header_failure [OF h4]
  show ?thesis by blast
qed

subsection \<open>C6: the header count is a multiple of four\<close>

text \<open>
  Claim C6. Whenever the transcoder reaches the point where it writes the header, the
  count \<open>n\<close> is 256 minus the offset plus the \<open>strip mod 4\<close> bytes read for alignment,
  it is a multiple of four and at most 256, and the \<open>n\<close> bytes to be written are the
  input from the offset on, with the bytes of each word reversed when a swap is required:
  the swap has touched complete words only.
\<close>

theorem header_count_aligned:
  assumes hd: "xbit2bin_header e fin = Some (do_swap, hdr, n, fin1)"
    and an: "analyze_xilinx_header e (take MAXHDR (content fin)) = (strip, sw)"
  shows "sw = do_swap \<and> 0 \<le> strip
    \<and> n = MAXHDR - nat strip + nat strip mod 4
    \<and> n mod 4 = 0 \<and> n \<le> MAXHDR
    \<and> take n hdr = (if do_swap then rev_words (take n (drop (nat strip) (content fin)))
                     else take n (drop (nat strip) (content fin)))"
proof -
  note inv = xbit2bin_header_Some [OF hd an]
  from inv(3) have "length (take MAXHDR (content fin)) = MAXHDR" by simp
  from analyze_success(1) [OF this an inv(1)] inv(1) have s216: "nat strip \<le> 216" by simp
  from inv(2) obtain fin2 where hr: "header_reads fin (nat strip mod 4) = Some fin2" ..
  from xbit2bin_header_ok [OF hr an inv(1)] hd
  have "sw = do_swap" and n: "n = MAXHDR - nat strip + nat strip mod 4"
    and "take n hdr = (if sw then rev_words (take n (drop (nat strip) (content fin)))
                       else take n (drop (nat strip) (content fin)))"
    by auto
  moreover from hdr_count(1) [OF s216] n have "n mod 4 = 0"
    by (simp add: mod_eq_0_iff_dvd)
  moreover from hdr_count(3) [OF s216] n have "n \<le> MAXHDR" by simp
  ultimately show ?thesis using inv(1) by simp
qed

theorem header_count_aligned_witness:
  "\<exists>hdr fin1.
     xbit2bin_header LittleEndian
       \<lparr>pending = [replicate 41 0x41 @ replicate 32 0xff @ words_mem LittleEndian buswords_swap
                   @ replicate 175 0 @ [1, 2, 3, 4, 5]], ending = Eof\<rparr>
     = Some (True, hdr, 216, fin1)
     \<and> analyze_xilinx_header LittleEndian
         (take MAXHDR (replicate 41 0x41 @ replicate 32 0xff @ words_mem LittleEndian buswords_swap
                       @ replicate 175 0 @ [1, 2, 3, 4, 5]))
       = (41, True)
     \<and> (216 :: nat) = MAXHDR - nat 41 + nat 41 mod 4 \<and> (216 :: nat) mod 4 = 0"
proof -
  let ?P = "replicate 41 0x41 @ replicate 32 0xff @ words_mem LittleEndian buswords_swap
            @ replicate 175 0 @ [1, 2, 3, 4, 5 :: byte]"
  let ?fin = "\<lparr>pending = [?P], ending = Eof\<rparr>"
  have an0: "analyze_xilinx_header LittleEndian (take MAXHDR ?P) = (41, True)"
    by code_simp
  then have an: "analyze_xilinx_header LittleEndian (take MAXHDR (content ?fin)) = (41, True)"
    by (simp add: content_def)
  have "MAXHDR + nat 41 mod 4 \<le> length ?P"
    by (simp add: MAXHDR_def)
  from header_reads_regular [OF _ this, of ?fin]
  obtain fin2 where hr: "header_reads ?fin (nat 41 mod 4) = Some fin2"
    by simp
  from xbit2bin_header_ok [OF hr an]
  obtain hdr where hd: "xbit2bin_header LittleEndian ?fin
      = Some (True, hdr, MAXHDR - nat 41 + nat 41 mod 4, fin2)"
    by auto
  from header_count_aligned [OF hd an] hd an0 show ?thesis
    by (simp add: MAXHDR_def)
qed

subsection \<open>C7: swapping twice\<close>

text \<open>
  Claim C7. For every buffer whose length is a multiple of four, swapping the byte order
  of its 32-bit words twice gives the buffer back.
\<close>

theorem bswap_involution:
  "length buf mod 4 = 0 \<Longrightarrow>
   xbit2bin_bswap e (xbit2bin_bswap e buf (length buf)) (length buf) = buf"
proof -
  assume "length buf mod 4 = 0"
  then have "4 dvd length buf" by (simp add: mod_eq_0_iff_dvd)
  then show ?thesis by (simp add: xbit2bin_bswap_aligned)
qed

theorem bswap_involution_witness:
  "length [1, 2, 3, 4, 5, 6, 7, 8 :: byte] mod 4 = 0
   \<and> xbit2bin_bswap LittleEndian
        (xbit2bin_bswap LittleEndian [1, 2, 3, 4, 5, 6, 7, 8] (length [1, 2, 3, 4, 5, 6, 7, 8 :: byte]))
        (length [1, 2, 3, 4, 5, 6, 7, 8 :: byte])
     = [1, 2, 3, 4, 5, 6, 7, 8]"
proof -
  have h: "length [1, 2, 3, 4, 5, 6, 7, 8 :: byte] mod 4 = 0" by simp
  from h bswap_involution [OF h] show ?thesis by blast
qed

subsection \<open>C8: an input that ends with the header\<close>

text \<open>
  Claim C8, as amended. For an input of exactly 256 bytes that ends without a read error,
  which the read of the header returns whole (a read that returns fewer bytes, as a pipe
  may do, is not repeated), whose analysis succeeds with an offset that is a multiple of
  four, and an output that accepts the bytes, the transcoder returns 0 and has written the
  header from the offset on, with the bytes of each word reversed when a swap is required.
\<close>

theorem xbit2bin_header_only:
  assumes len: "length (content fin) = MAXHDR"
    and rd: "fst (sys_read fin MAXHDR) = int MAXHDR"
    and an: "analyze_xilinx_header e (content fin) = (strip, do_swap)"
    and ok: "strip \<noteq> - 1"
    and al: "nat strip mod 4 = 0"
    and eof: "ending fin = Eof"
    and room: "MAXHDR - nat strip \<le> room fout"
  shows "xbit2bin e fin fout datbuf
         = (0, fout\<lparr>written := written fout @ (if do_swap then rev_words (drop (nat strip) (content fin))
                                                else drop (nat strip) (content fin)),
                     room := room fout - (MAXHDR - nat strip)\<rparr>)"
proof -
  from len have an': "analyze_xilinx_header e (take MAXHDR (content fin)) = (strip, do_swap)"
    using an by simp
  from analyze_result [OF len an ok] have ok': "0 \<le> strip" .
  from len room have room': "length (content fin) - nat strip \<le> room fout" by simp
  obtain fin2 where hr: "header_reads fin (nat strip mod 4) = Some fin2"
    using rd al by (cases "sys_read fin MAXHDR") (simp add: header_reads_def)
  note pre = xbit2bin_to_copy [OF hr an' ok' room']
  have n0: "MAXHDR - nat strip + nat strip mod 4 = MAXHDR - nat strip"
    using al by simp
  have X: "take (MAXHDR - nat strip) (drop (nat strip) (content fin))
           = drop (nat strip) (content fin)"
    using len by simp
  from pre(5) len have rest: "content fin2 = []"
    by (simp add: n0)
  have "xbit2bin e fin fout datbuf
        = xbit2bin_copy e do_swap fin2
            (fout\<lparr>written := written fout @ (if do_swap then rev_words (drop (nat strip) (content fin))
                                                else drop (nat strip) (content fin)),
                     room := room fout - (MAXHDR - nat strip)\<rparr>) datbuf"
    using pre(1) [of datbuf] by (simp only: n0 X)
  also have "\<dots> = (0, fout\<lparr>written := written fout @ (if do_swap then rev_words (drop (nat strip) (content fin))
                                                else drop (nat strip) (content fin)),
                     room := room fout - (MAXHDR - nat strip)\<rparr>)"
    using eof rest pre(6) by (intro copy_eof) simp_all
  finally show ?thesis .
qed

theorem xbit2bin_header_only_witness:
  "xbit2bin LittleEndian
     \<lparr>pending = [replicate 40 0x41 @ replicate 32 0xff @ words_mem LittleEndian buswords_swap
                  @ replicate 176 0], ending = Eof\<rparr>
     \<lparr>written = [], room = 1000\<rparr> (replicate DATBUF_SIZE 0)
   = (0, \<lparr>written = rev_words (replicate 32 0xff @ words_mem LittleEndian buswords_swap
                                 @ replicate 176 0), room = 784\<rparr>)"
proof -
  let ?fin = "\<lparr>pending = [replicate 40 0x41 @ replicate 32 0xff @ words_mem LittleEndian buswords_swap
            @ replicate 176 (0 :: byte)], ending = Eof\<rparr>"
  let ?fout = "\<lparr>written = [], room = 1000\<rparr>"
  have an: "analyze_xilinx_header LittleEndian (content ?fin) = (40, True)"
    by code_simp
  have len: "length (content ?fin) = MAXHDR"
    and rd: "fst (sys_read ?fin MAXHDR) = int MAXHDR"
    and al: "nat 40 mod 4 = 0"
    and room: "MAXHDR - nat 40 \<le> room ?fout"
    by (simp_all add: MAXHDR_def content_def sys_read_def)
  have ok: "(40 :: int) \<noteq> - 1" and eof: "ending ?fin = Eof"
    by simp_all
  from xbit2bin_header_only [OF len rd an ok al eof room, of "replicate DATBUF_SIZE 0"]
  show ?thesis by (simp add: MAXHDR_def content_def)
qed

text \<open>
  Claim C8 as it is stated fails when the offset is not a multiple of four: the
  transcoder reads on for one to three bytes, on an input of exactly 256 bytes that read
  returns nothing, and the transcoder returns -1. Here the offset is 2. It also fails on
  an input of 256 bytes with offset 0 that comes in two pieces of 100 and of 156 bytes:
  the read of the header returns 100 bytes and the transcoder returns -1.
\<close>

theorem xbit2bin_header_only_counterexample:
  "length ([0x41, 0x42] @ replicate 32 0xff @ words_mem LittleEndian buswords_noswap
           @ replicate 214 (0 :: byte)) = 256
   \<and> analyze_xilinx_header LittleEndian
       ([0x41, 0x42] @ replicate 32 0xff @ words_mem LittleEndian buswords_noswap @ replicate 214 0)
     = (2, False)
   \<and> xbit2bin LittleEndian
       \<lparr>pending = [[0x41, 0x42] @ replicate 32 0xff @ words_mem LittleEndian buswords_noswap
                   @ replicate 214 0], ending = Eof\<rparr>
       \<lparr>written = [], room = 1000\<rparr> (replicate DATBUF_SIZE 0)
     = (- 1, \<lparr>written = [], room = 1000\<rparr>)
   \<and> length (replicate 32 0xff @ words_mem LittleEndian buswords_noswap @ replicate 60 0
             @ replicate 156 (0 :: byte)) = 256
   \<and> analyze_xilinx_header LittleEndian
       (replicate 32 0xff @ words_mem LittleEndian buswords_noswap @ replicate 60 0 @ replicate 156 0)
     = (0, False)
   \<and> xbit2bin LittleEndian
       \<lparr>pending = [replicate 32 0xff @ words_mem LittleEndian buswords_noswap @ replicate 60 0,
                   replicate 156 0], ending = Eof\<rparr>
       \<lparr>written = [], room = 1000\<rparr> (replicate DATBUF_SIZE 0)
     = (- 1, \<lparr>written = [], room = 1000\<rparr>)"
proof -
  let ?P = "[0x41, 0x42] @ replicate 32 0xff @ words_mem LittleEndian buswords_noswap
            @ replicate 214 (0 :: byte)"
  let ?fin = "\<lparr>pending = [?P], ending = Eof\<rparr>"
  let ?pipe = "\<lparr>pending = [replicate 32 0xff @ words_mem LittleEndian buswords_noswap @ replicate 60 0,
                   replicate 156 (0 :: byte)], ending = Eof\<rparr>"
  have an0: "analyze_xilinx_header LittleEndian ?P = (2, False)"
    by code_simp
  then have an: "analyze_xilinx_header LittleEndian (take MAXHDR (content ?fin)) = (2, False)"
    by (simp add: MAXHDR_def content_def)
  have short: "length (content ?fin) < MAXHDR + nat 2 mod 4"
    by (simp add: MAXHDR_def content_def)
  from xbit2bin_align_failure [OF an _ short]
  have run: "xbit2bin LittleEndian ?fin \<lparr>written = [], room = 1000\<rparr> (replicate DATBUF_SIZE 0)
        = (- 1, \<lparr>written = [], room = 1000\<rparr>)"
    by simp
  have an1: "analyze_xilinx_header LittleEndian
       (replicate 32 0xff @ words_mem LittleEndian buswords_noswap @ replicate 60 0 @ replicate 156 0)
     = (0, False)"
    by code_simp
  have "fst (sys_read ?pipe MAXHDR) = 100"
    by (simp add: sys_read_def MAXHDR_def)
  then have "fst (sys_read ?pipe MAXHDR) \<noteq> int MAXHDR"
    by (simp add: MAXHDR_def)
  then have "xbit2bin_header LittleEndian ?pipe = None"
    by (rule xbit2bin_header_short)
  then have run1: "xbit2bin LittleEndian ?pipe \<lparr>written = [], room = 1000\<rparr> (replicate DATBUF_SIZE 0)
        = (- 1, \<lparr>written = [], room = 1000\<rparr>)"
    by (simp add: xbit2bin_def)
  from an0 run an1 run1 show ?thesis by simp
qed

subsection \<open>C9: the offset and the bytes it points to\<close>

text \<open>
  Claim C9. When the analysis of a 256-byte header succeeds, the returned offset lies
  between 0 and 216, the 32 bytes from that offset on are all \<open>0xff\<close>, the eight bytes
  after them are one of the two markers, and the position where the scan stops, with the
  eight bytes compared there, lies inside the buffer.
\<close>

theorem analyze_strip_in_buffer:
  assumes "length hdr = MAXHDR" and "analyze_xilinx_header e hdr = (strip, do_swap)"
    and "strip \<noteq> - 1"
  shows "0 \<le> strip \<and> strip \<le> 216
    \<and> take 32 (drop (nat strip) hdr) = replicate 32 0xff
    \<and> take 8 (drop (nat strip + 32) hdr)
        = words_mem e (if do_swap then buswords_swap else buswords_noswap)
    \<and> fst (scan_dummies hdr 0 0) = nat strip + 32
    \<and> nat strip + 32 + sizeof_words buswords_swap \<le> length hdr"
proof -
  from assms have ok: "0 \<le> strip" by (rule analyze_result)
  from analyze_success [OF assms(1,2) ok] ok assms(1) show ?thesis
    by (simp add: MAXHDR_def)
qed

theorem analyze_strip_in_buffer_witness:
  "length (replicate 40 0x41 @ replicate 32 0xff @ words_mem LittleEndian buswords_noswap
           @ replicate 176 (0 :: byte)) = MAXHDR
   \<and> analyze_xilinx_header LittleEndian
       (replicate 40 0x41 @ replicate 32 0xff @ words_mem LittleEndian buswords_noswap @ replicate 176 0)
     = (40, False)
   \<and> (40 :: int) \<noteq> - 1
   \<and> take 32 (drop 40 (replicate 40 0x41 @ replicate 32 0xff
                          @ words_mem LittleEndian buswords_noswap @ replicate 176 (0 :: byte)))
     = replicate 32 0xff"
proof -
  let ?hdr = "replicate 40 0x41 @ replicate 32 0xff @ words_mem LittleEndian buswords_noswap
              @ replicate 176 (0 :: byte)"
  have len: "length ?hdr = MAXHDR"
    by (simp add: MAXHDR_def)
  have an: "analyze_xilinx_header LittleEndian ?hdr = (40, False)"
    by code_simp
  have ok: "(40 :: int) \<noteq> - 1" by simp
  from analyze_strip_in_buffer [OF len an ok] len an show ?thesis
    by simp
qed

subsection \<open>C10: a padding run longer than 32 bytes\<close>

text \<open>
  Claim C10, as amended. For a 256-byte buffer that is \<open>pre\<close>, \<open>k > 32\<close> padding bytes,
  a marker \<open>m\<close>, \<open>post\<close>, where \<open>pre\<close> holds no 32 consecutive padding bytes, the
  analysis succeeds with the offset of the first byte after the run minus 32: what is kept
  from the offset on is the last 32 padding bytes of the run, the marker and \<open>post\<close>.
\<close>

theorem analyze_long_run:
  assumes len: "length hdr = MAXHDR" and m: "is_marker e m"
    and hdr: "hdr = pre @ replicate k 0xff @ m @ post"
    and k: "32 < k"
    and pre: "\<not> has_dummy_run pre"
  shows "analyze_xilinx_header e hdr
           = (int (length pre + k) - 32, m = words_mem e buswords_swap)
       \<and> drop (length pre + k - 32) hdr = replicate 32 0xff @ m @ post"
proof
  from k have "32 \<le> k" by simp
  with len hdr show "analyze_xilinx_header e hdr
           = (int (length pre + k) - 32, m = words_mem e buswords_swap)"
    using pre m by (intro analyze_run)
  define A where "A = pre @ replicate (k - 32) 0xff"
  from k have "replicate k (0xff :: byte) = replicate (k - 32) 0xff @ replicate 32 0xff"
    by (simp add: replicate_add [symmetric])
  then have "hdr = A @ replicate 32 0xff @ m @ post"
    by (simp add: hdr A_def)
  moreover from k have "length pre + k - 32 = length A"
    by (simp add: A_def)
  ultimately show "drop (length pre + k - 32) hdr = replicate 32 0xff @ m @ post"
    by simp
qed

theorem analyze_long_run_witness:
  "analyze_xilinx_header LittleEndian
     ([0x41, 0x42] @ replicate 40 0xff @ words_mem LittleEndian buswords_swap @ replicate 206 0)
   = (10, True)
   \<and> drop 10 ([0x41, 0x42] @ replicate 40 0xff @ words_mem LittleEndian buswords_swap @ replicate 206 0)
   = replicate 32 0xff @ words_mem LittleEndian buswords_swap @ replicate 206 0"
proof -
  let ?m = "words_mem LittleEndian buswords_swap"
  let ?hdr = "[0x41, 0x42] @ replicate 40 0xff @ ?m @ replicate 206 (0 :: byte)"
  have m: "is_marker LittleEndian ?m"
    by (simp add: is_marker_def)
  have len: "length ?hdr = MAXHDR"
    by (simp add: MAXHDR_def)
  have k: "(32 :: nat) < 40" by simp
  have pre: "\<not> has_dummy_run [0x41, 0x42]"
    by (simp add: no_dummy_run_short)
  from analyze_long_run [OF len m refl k pre] show ?thesis
    by simp
qed

text \<open>
  Without the condition on \<open>pre\<close> claim C10 fails: here the scan stops after the first
  32 padding bytes and returns 0, while a run of 33 padding bytes and a marker follow
  later, and the position after that run minus 32 is 42.
\<close>

theorem analyze_long_run_counterexample:
  "analyze_xilinx_header LittleEndian
     (replicate 32 0xff @ words_mem LittleEndian buswords_noswap @ [0]
      @ replicate 33 0xff @ words_mem LittleEndian buswords_noswap @ replicate 174 0)
   = (0, False)
   \<and> length (replicate 32 0xff @ words_mem LittleEndian buswords_noswap @ [0]
             @ replicate 33 (0xff :: byte)) - 32 = 42"
  by (intro conjI; code_simp)

end
